theory Spec2Isabelle
  imports Main "HOL-Library.Word"
begin

unbundle bit_operations_syntax

section \<open>BitBuffer (src/BitBuffer.ts)\<close>

text \<open>
  The class has three fields: the \<open>Uint8Array\<close> storage and the two cursors. The byte
  cursor only ever grows, so it is a natural number; the bit cursor is an integer,
  because \<open>appendBits\<close> adds the (possibly negative) number \<open>length - realLength\<close> to it.
\<close>

record BitBuffer =
  buffer :: "8 word list"
  bytePointer :: nat
  bitPointer :: int

definition new_BitBuffer :: "nat \<Rightarrow> BitBuffer" where
  "new_BitBuffer initialSize =
     \<lparr>buffer = replicate initialSize 0, bytePointer = 0, bitPointer = 0\<rparr>"

text \<open>
  \<open>ensureCapacity\<close>: \<open>Math.ceil(bitsToAdd / 8)\<close> is written \<open>- ((- bitsToAdd) div 8)\<close>.
  The new array is zero-filled and \<open>newBuffer.set(this.buffer)\<close> copies the old bytes to
  its front. The bit cursor plays no part in the computation.
\<close>

definition ensureCapacity :: "int \<Rightarrow> BitBuffer \<Rightarrow> BitBuffer" where
  "ensureCapacity bitsToAdd s =
     (let requiredCapacity = int (bytePointer s) + (- ((- bitsToAdd) div 8))
      in if requiredCapacity > int (length (buffer s))
         then s\<lparr>buffer := buffer s @ replicate (nat requiredCapacity - length (buffer s)) 0\<rparr>
         else s)"

text \<open>\<open>value.toString(2).length\<close> for a non-negative integer: the number of binary digits.\<close>

fun bitLength :: "nat \<Rightarrow> nat" where
  "bitLength n = (if n = 0 then 0 else Suc (bitLength (n div 2)))"

declare bitLength.simps [simp del]

definition realLength :: "nat \<Rightarrow> nat" where
  "realLength v = (if v = 0 then 1 else bitLength v)"

text \<open>
  The body of the loop, first statement:
  \<open>buffer[bytePointer] |= (Math.floor(value / Math.pow(2, i)) & 1) << (7 - bitPointer)\<close>.
  The operands of \<open>&\<close>, \<open><<\<close> and \<open>|\<close> are 32-bit integers and the shift count is taken
  modulo 32; storing into the \<open>Uint8Array\<close> keeps the low 8 bits. A store at an index
  outside the array is ignored by a typed array.
\<close>

definition orBit :: "nat \<Rightarrow> nat \<Rightarrow> BitBuffer \<Rightarrow> BitBuffer" where
  "orBit v i s =
     (let b = (word_of_nat (v div 2 ^ i) AND 1 :: 32 word);
          shifted = push_bit (nat ((7 - bitPointer s) mod 32)) b
      in if bytePointer s < length (buffer s)
         then s\<lparr>buffer := (buffer s)[bytePointer s :=
                  ucast ((ucast (buffer s ! bytePointer s) :: 32 word) OR shifted)]\<rparr>
         else s)"

text \<open>The rest of the loop body: \<open>bitPointer++\<close> and the carry into the byte cursor.\<close>

definition advance :: "BitBuffer \<Rightarrow> BitBuffer" where
  "advance s =
     (if bitPointer s + 1 = 8
      then s\<lparr>bytePointer := bytePointer s + 1, bitPointer := 0\<rparr>
      else s\<lparr>bitPointer := bitPointer s + 1\<rparr>)"

text \<open>\<open>for (let i = realLength - 1; i >= 0; i--)\<close>: \<open>writeBits v n\<close> runs the iterations
  \<open>i = n - 1, \<dots>, 0\<close>.\<close>

fun writeBits :: "nat \<Rightarrow> nat \<Rightarrow> BitBuffer \<Rightarrow> BitBuffer" where
  "writeBits v 0 s = s"
| "writeBits v (Suc i) s = writeBits v i (advance (orBit v i s))"

text \<open>
  \<open>appendBits(value, length?)\<close> for a non-negative integer \<open>value\<close>; \<open>None\<close> is the omitted
  argument, and \<open>!length\<close> also holds for \<open>0\<close>.
\<close>

definition appendBits :: "nat \<Rightarrow> int option \<Rightarrow> BitBuffer \<Rightarrow> BitBuffer" where
  "appendBits v len s =
     (let rl = realLength v;
          l = (case len of None \<Rightarrow> int rl | Some k \<Rightarrow> if k = 0 then int rl else k);
          s1 = ensureCapacity l s;
          padding = l - int rl;
          s2 = s1\<lparr>bitPointer := bitPointer s1 + padding\<rparr>;
          s3 = (if bitPointer s2 \<ge> 8
                then s2\<lparr>bytePointer := bytePointer s2 + nat (bitPointer s2 div 8),
                        bitPointer := bitPointer s2 mod 8\<rparr>
                else s2)
      in writeBits v rl s3)"

definition padByte :: "BitBuffer \<Rightarrow> BitBuffer" where
  "padByte s =
     (if bitPointer s > 0 then s\<lparr>bitPointer := 0, bytePointer := bytePointer s + 1\<rparr> else s)"

text \<open>
  Modelled from the spec: \<open>PAD_CODEWORDS\<close> is imported from \<open>./constants\<close>, which is not
  among the sources; the spec gives the two pad codewords as \<open>0xEC\<close> and \<open>0x11\<close>, in this
  order (the test expects the values 236 and 17).
\<close>

definition PAD_CODEWORDS :: "8 word list" where
  "PAD_CODEWORDS = [0xEC, 0x11]"

text \<open>The \<open>while\<close> loop of \<open>fill\<close>, with the index \<open>i\<close> into \<open>PAD_CODEWORDS\<close>.\<close>

function fillLoop :: "nat \<Rightarrow> BitBuffer \<Rightarrow> BitBuffer" where
  "fillLoop i s =
     (if bytePointer s < length (buffer s)
      then fillLoop ((i + 1) mod 2)
             (s\<lparr>buffer := (buffer s)[bytePointer s := PAD_CODEWORDS ! i],
                bytePointer := bytePointer s + 1\<rparr>)
      else s)"
  by pat_completeness auto
termination
  by (relation "measure (\<lambda>(i, s). length (buffer s) - bytePointer s)") auto

declare fillLoop.simps [simp del]

definition fill :: "BitBuffer \<Rightarrow> BitBuffer" where
  "fill s = fillLoop 0 (padByte s)"

definition toArray :: "BitBuffer \<Rightarrow> 8 word list" where
  "toArray s = take (bytePointer s + (if bitPointer s > 0 then 1 else 0)) (buffer s)"

text \<open>\<open>toString()\<close> with \<open>pretty = false\<close>: every stored byte as eight binary digits.\<close>

definition byteString :: "8 word \<Rightarrow> string" where
  "byteString b = map (\<lambda>k. if bit b (7 - k) then CHR ''1'' else CHR ''0'') [0..<8]"

definition toString :: "BitBuffer \<Rightarrow> string" where
  "toString s = concat (map byteString (buffer s))"

text \<open>
  The stream as a sequence of bits, most significant bit of each byte first: \<open>streamBit\<close>
  reads the bit at a position of the storage, \<open>cursor\<close> is the position of the two
  cursors (for a bit cursor that is not negative).
\<close>

definition streamBit :: "8 word list \<Rightarrow> nat \<Rightarrow> bool" where
  "streamBit buf n = bit (buf ! (n div 8)) (7 - n mod 8)"

definition cursor :: "BitBuffer \<Rightarrow> nat" where
  "cursor s = 8 * bytePointer s + nat (bitPointer s)"

text \<open>The position of the cursors as an integer, for a bit cursor of any sign, and a
  sequence of \<open>appendBits\<close> calls, each with its value and its optional length.\<close>

definition pos :: "BitBuffer \<Rightarrow> int" where
  "pos s = 8 * int (bytePointer s) + bitPointer s"

fun appendAll :: "(nat \<times> int option) list \<Rightarrow> BitBuffer \<Rightarrow> BitBuffer" where
  "appendAll [] s = s"
| "appendAll ((v, len) # calls) s = appendAll calls (appendBits v len s)"

section \<open>Encoding (the encoding module)\<close>

datatype EncodingMode = Numeric | Alphanumeric | Byte | Kanji

datatype ErrorCorrectionLevel = L | M | Q | H

text \<open>
  \<open>Version\<close> is a union of the number literals 1 to 40, erased at run time: a version is
  an integer here. \<open>QRCodeType\<close> is the string \<open>`${Version}${ErrorCorrectionLevel}`\<close>: a pair.
\<close>

type_synonym Version = int

type_synonym QRCodeType = "Version \<times> ErrorCorrectionLevel"

text \<open>
  Every failure of the source is \<open>throw new Error(message)\<close>; the constructors are named
  after the error kinds of the specification. Both "Unknown version" (count indicator) and
  "Unsupported version" (encoder) are \<open>UnsupportedVersion\<close>.
\<close>

datatype error =
    UnsupportedMode
  | UnsupportedVersion
  | UnsupportedErrorCorrectionLevel
  | InvalidCharacter char
  | DivisionByZero

definition getCharacterCountIndicatorSize :: "Version \<Rightarrow> EncodingMode \<Rightarrow> error + nat" where
  "getCharacterCountIndicatorSize version encoding =
     (case encoding of
        Alphanumeric \<Rightarrow>
          if version \<le> 9 then Inr 9
          else if version \<le> 26 then Inr 11
          else if version \<le> 40 then Inr 13
          else Inl UnsupportedVersion
      | _ \<Rightarrow> Inl UnsupportedMode)"

text \<open>
  Modelled from the spec: \<open>ALPHANUMERIC_ENCODING_TABLE\<close>, \<open>MODE_INDICATOR\<close> and
  \<open>DATA_CODEWORDS_BY_TYPE\<close> are imported from \<open>./constants\<close>, which is not among the
  sources. The spec gives the table as the 45 symbols \<open>0\<close>-\<open>9\<close>, \<open>A\<close>-\<open>Z\<close>, space and
  \<open>$ % * + - . / :\<close> mapped, in this order, to \<open>0..44\<close>, and the alphanumeric mode
  indicator as the 4-bit pattern \<open>0010\<close>. The capacity for version 1, level M is the
  16 bytes of the buffer that the repository's test compares the encoder's output with.
  A key that is absent from the table object reads as \<open>undefined\<close>: \<open>None\<close>.
\<close>

definition ALPHANUMERIC_ENCODING_TABLE :: "char \<rightharpoonup> nat" where
  "ALPHANUMERIC_ENCODING_TABLE = map_of
     [(CHR ''0'', 0), (CHR ''1'', 1), (CHR ''2'', 2), (CHR ''3'', 3), (CHR ''4'', 4),
      (CHR ''5'', 5), (CHR ''6'', 6), (CHR ''7'', 7), (CHR ''8'', 8), (CHR ''9'', 9),
      (CHR ''A'', 10), (CHR ''B'', 11), (CHR ''C'', 12), (CHR ''D'', 13), (CHR ''E'', 14),
      (CHR ''F'', 15), (CHR ''G'', 16), (CHR ''H'', 17), (CHR ''I'', 18), (CHR ''J'', 19),
      (CHR ''K'', 20), (CHR ''L'', 21), (CHR ''M'', 22), (CHR ''N'', 23), (CHR ''O'', 24),
      (CHR ''P'', 25), (CHR ''Q'', 26), (CHR ''R'', 27), (CHR ''S'', 28), (CHR ''T'', 29),
      (CHR ''U'', 30), (CHR ''V'', 31), (CHR ''W'', 32), (CHR ''X'', 33), (CHR ''Y'', 34),
      (CHR ''Z'', 35), (CHR '' '', 36), (CHR ''$'', 37), (CHR ''%'', 38), (CHR ''*'', 39),
      (CHR ''+'', 40), (CHR ''-'', 41), (CHR ''.'', 42), (CHR ''/'', 43), (CHR '':'', 44)]"

definition MODE_INDICATOR_ALPHANUMERIC :: nat where
  "MODE_INDICATOR_ALPHANUMERIC = 2"

definition DATA_CODEWORDS_1M :: nat where
  "DATA_CODEWORDS_1M = 16"

text \<open>\<open>!v\<close> for a table entry: true of \<open>undefined\<close> and of the number 0.\<close>

definition falsy :: "nat option \<Rightarrow> bool" where
  "falsy v = (v = None \<or> v = Some 0)"

text \<open>
  The loop over the input, two characters per iteration. With one character left,
  \<open>next\<close> is \<open>undefined\<close>, so the second check and the 11-bit branch are skipped.
  (\<open>cur\<close> and \<open>nxt\<close> are the source's \<open>curr\<close> and \<open>next\<close>.)
\<close>

fun encodeGroups :: "string \<Rightarrow> BitBuffer \<Rightarrow> error + BitBuffer" where
  "encodeGroups [] encoded = Inr encoded"
| "encodeGroups [cur] encoded =
     (let curValue = ALPHANUMERIC_ENCODING_TABLE cur
      in if falsy curValue then Inl (InvalidCharacter cur)
         else Inr (appendBits (the curValue) (Some 6) encoded))"
| "encodeGroups (cur # nxt # rest) encoded =
     (let curValue = ALPHANUMERIC_ENCODING_TABLE cur;
          nxtValue = ALPHANUMERIC_ENCODING_TABLE nxt
      in if falsy curValue then Inl (InvalidCharacter cur)
         else if falsy nxtValue then Inl (InvalidCharacter nxt)
         else encodeGroups rest
                (appendBits (the curValue * 45 + the nxtValue) (Some 11) encoded))"

definition encodeAlphanumeric ::
    "string \<Rightarrow> Version \<Rightarrow> ErrorCorrectionLevel \<Rightarrow> error + BitBuffer" where
  "encodeAlphanumeric data version errorCorrectionLevel =
     (if version \<noteq> 1 then Inl UnsupportedVersion
      else if errorCorrectionLevel \<noteq> M then Inl UnsupportedErrorCorrectionLevel
      else
        let encoded = appendBits MODE_INDICATOR_ALPHANUMERIC (Some 4)
                        (new_BitBuffer DATA_CODEWORDS_1M)
        in case getCharacterCountIndicatorSize version Alphanumeric of
             Inl e \<Rightarrow> Inl e
           | Inr width \<Rightarrow>
               (case encodeGroups data (appendBits (length data) (Some (int width)) encoded) of
                  Inl e \<Rightarrow> Inl e
                | Inr encoded' \<Rightarrow> Inr (padByte (appendBits 0 (Some 4) encoded'))))"

definition encode :: "string \<Rightarrow> EncodingMode \<Rightarrow> QRCodeType \<Rightarrow> error + BitBuffer" where
  "encode data mode qrType =
     (case mode of
        Alphanumeric \<Rightarrow>
          (case encodeAlphanumeric data 1 M of
             Inl e \<Rightarrow> Inl e
           | Inr encoded \<Rightarrow> Inr (fill encoded))
      | _ \<Rightarrow> Inl UnsupportedMode)"

section \<open>GaloisField (src/types.ts)\<close>

text \<open>
  The values that the field functions compute with: integer-valued numbers, the two
  infinities, \<open>NaN\<close>, and \<open>undefined\<close> (a hole of an array, or a read outside it).
  A float represents every integer of magnitude up to \<open>2^53\<close> exactly; the sums and
  differences of the field functions stay far below that bound and are exact. The
  product in \<open>power\<close> can pass it: \<open>js_round\<close> is the rounding of an exact integer
  result to the nearest float.
\<close>

datatype jsval = Fin int | NegInfinity | PosInfinity | NaN | Undefined

fun js_add :: "jsval \<Rightarrow> jsval \<Rightarrow> jsval" where
  "js_add (Fin a) (Fin b) = Fin (a + b)"
| "js_add (Fin a) NegInfinity = NegInfinity"
| "js_add (Fin a) PosInfinity = PosInfinity"
| "js_add NegInfinity (Fin b) = NegInfinity"
| "js_add PosInfinity (Fin b) = PosInfinity"
| "js_add NegInfinity NegInfinity = NegInfinity"
| "js_add PosInfinity PosInfinity = PosInfinity"
| "js_add _ _ = NaN"

fun js_neg :: "jsval \<Rightarrow> jsval" where
  "js_neg (Fin a) = Fin (- a)"
| "js_neg NegInfinity = PosInfinity"
| "js_neg PosInfinity = NegInfinity"
| "js_neg _ = NaN"

definition js_sub :: "jsval \<Rightarrow> jsval \<Rightarrow> jsval" where
  "js_sub a b = js_add a (js_neg b)"

text \<open>
  The float nearest to an integer: itself up to \<open>2^53\<close>; beyond, the 53 leading binary
  digits, rounded to nearest with ties to the even neighbour; an infinity when the
  rounded magnitude reaches \<open>2^1024\<close>.
\<close>

definition js_round :: "int \<Rightarrow> jsval" where
  "js_round x =
     (if \<bar>x\<bar> \<le> 2 ^ 53 then Fin x
      else let e = bitLength (nat \<bar>x\<bar>) - 53;
               q = \<bar>x\<bar> div 2 ^ e;
               r = \<bar>x\<bar> mod 2 ^ e;
               half = 2 ^ (e - 1);
               q' = (if r > half \<or> (r = half \<and> odd q) then q + 1 else q);
               y = q' * 2 ^ e
           in if y \<ge> 2 ^ 1024 then (if x < 0 then NegInfinity else PosInfinity)
              else Fin (sgn x * y))"

text \<open>Multiplication by an integer-valued number: the exact product, rounded once.\<close>

fun js_mul :: "jsval \<Rightarrow> int \<Rightarrow> jsval" where
  "js_mul (Fin a) n = js_round (a * n)"
| "js_mul NegInfinity n = (if n = 0 then NaN else if n > 0 then NegInfinity else PosInfinity)"
| "js_mul PosInfinity n = (if n = 0 then NaN else if n > 0 then PosInfinity else NegInfinity)"
| "js_mul _ n = NaN"

text \<open>\<open>x % 255\<close>: the remainder takes the sign of the dividend; not a number for an
  infinite or undefined dividend.\<close>

fun js_mod255 :: "jsval \<Rightarrow> jsval" where
  "js_mod255 (Fin a) = Fin (sgn a * (\<bar>a\<bar> mod 255))"
| "js_mod255 _ = NaN"

text \<open>\<open>table[v]\<close>: an element for an index inside the array, \<open>undefined\<close> otherwise.\<close>

fun js_index :: "jsval list \<Rightarrow> jsval \<Rightarrow> jsval" where
  "js_index t (Fin k) = (if 0 \<le> k \<and> nat k < length t then t ! nat k else Undefined)"
| "js_index t _ = Undefined"

definition IRREDUCIBLE_POLYNOMIAL :: int where
  "IRREDUCIBLE_POLYNOMIAL = 0b100011101"

text \<open>
  The static initializer: \<open>for (let i = 0; i < 255; i++)\<close> over the pair of tables
  \<open>(expTable, logTable)\<close>, both starting as arrays of holes.
\<close>

function initLoop :: "nat \<Rightarrow> int \<Rightarrow> jsval list \<times> jsval list \<Rightarrow> jsval list \<times> jsval list" where
  "initLoop i x (expT, logT) =
     (if i < 255
      then let expT' = expT[i := Fin x];
               logT' = logT[nat x := Fin (int i)];
               x' = x * 2;
               x'' = (if x' \<ge> 256 then x' XOR IRREDUCIBLE_POLYNOMIAL else x')
           in initLoop (i + 1) x'' (expT', logT')
      else (expT, logT))"
  by pat_completeness auto
termination
  by (relation "measure (\<lambda>(i, x, t). 255 - i)") auto

declare initLoop.simps [simp del]

definition tables :: "jsval list \<times> jsval list" where
  "tables =
     (case initLoop 0 1 (replicate 512 Undefined, replicate 256 Undefined) of
        (expT, logT) \<Rightarrow> (expT[255 := expT ! 0], logT[0 := NegInfinity]))"

definition expTable :: "jsval list" where
  "expTable = fst tables"

definition logTable :: "jsval list" where
  "logTable = snd tables"

text \<open>
  The content of the two tables after the initializer, as literals: \<open>expValues\<close> are the
  entries 0 to 255 of \<open>expTable\<close> (the entries 256 to 511 stay holes), \<open>logValues\<close> the
  entries 1 to 255 of \<open>logTable\<close>. Lemma \<open>tables_eq\<close> below computes them from \<open>tables\<close>.
\<close>

definition expValues :: "int list" where
  "expValues =
    [1, 2, 4, 8, 16, 32, 64, 128, 29, 58, 116, 232, 205, 135, 19, 38,
     76, 152, 45, 90, 180, 117, 234, 201, 143, 3, 6, 12, 24, 48, 96, 192,
     157, 39, 78, 156, 37, 74, 148, 53, 106, 212, 181, 119, 238, 193, 159, 35,
     70, 140, 5, 10, 20, 40, 80, 160, 93, 186, 105, 210, 185, 111, 222, 161,
     95, 190, 97, 194, 153, 47, 94, 188, 101, 202, 137, 15, 30, 60, 120, 240,
     253, 231, 211, 187, 107, 214, 177, 127, 254, 225, 223, 163, 91, 182, 113, 226,
     217, 175, 67, 134, 17, 34, 68, 136, 13, 26, 52, 104, 208, 189, 103, 206,
     129, 31, 62, 124, 248, 237, 199, 147, 59, 118, 236, 197, 151, 51, 102, 204,
     133, 23, 46, 92, 184, 109, 218, 169, 79, 158, 33, 66, 132, 21, 42, 84,
     168, 77, 154, 41, 82, 164, 85, 170, 73, 146, 57, 114, 228, 213, 183, 115,
     230, 209, 191, 99, 198, 145, 63, 126, 252, 229, 215, 179, 123, 246, 241, 255,
     227, 219, 171, 75, 150, 49, 98, 196, 149, 55, 110, 220, 165, 87, 174, 65,
     130, 25, 50, 100, 200, 141, 7, 14, 28, 56, 112, 224, 221, 167, 83, 166,
     81, 162, 89, 178, 121, 242, 249, 239, 195, 155, 43, 86, 172, 69, 138, 9,
     18, 36, 72, 144, 61, 122, 244, 245, 247, 243, 251, 235, 203, 139, 11, 22,
     44, 88, 176, 125, 250, 233, 207, 131, 27, 54, 108, 216, 173, 71, 142, 1]"

definition logValues :: "int list" where
  "logValues =
    [0, 1, 25, 2, 50, 26, 198, 3, 223, 51, 238, 27, 104, 199, 75, 4,
     100, 224, 14, 52, 141, 239, 129, 28, 193, 105, 248, 200, 8, 76, 113, 5,
     138, 101, 47, 225, 36, 15, 33, 53, 147, 142, 218, 240, 18, 130, 69, 29,
     181, 194, 125, 106, 39, 249, 185, 201, 154, 9, 120, 77, 228, 114, 166, 6,
     191, 139, 98, 102, 221, 48, 253, 226, 152, 37, 179, 16, 145, 34, 136, 54,
     208, 148, 206, 143, 150, 219, 189, 241, 210, 19, 92, 131, 56, 70, 64, 30,
     66, 182, 163, 195, 72, 126, 110, 107, 58, 40, 84, 250, 133, 186, 61, 202,
     94, 155, 159, 10, 21, 121, 43, 78, 212, 229, 172, 115, 243, 167, 87, 7,
     112, 192, 247, 140, 128, 99, 13, 103, 74, 222, 237, 49, 197, 254, 24, 227,
     165, 153, 119, 38, 184, 180, 124, 17, 68, 146, 217, 35, 32, 137, 46, 55,
     63, 209, 91, 149, 188, 207, 205, 144, 135, 151, 178, 220, 252, 190, 97, 242,
     86, 211, 171, 20, 42, 93, 158, 132, 60, 57, 83, 71, 109, 65, 162, 31,
     45, 67, 216, 183, 123, 164, 118, 196, 23, 73, 236, 127, 12, 111, 246, 108,
     161, 59, 82, 41, 157, 85, 170, 251, 96, 134, 177, 187, 204, 62, 90, 203,
     89, 95, 176, 156, 169, 160, 81, 11, 245, 22, 235, 122, 117, 44, 215, 79,
     174, 213, 233, 230, 231, 173, 232, 116, 214, 244, 234, 168, 80, 88, 175]"

text \<open>The entries of the tables at the indices that the field functions read: \<open>lg a\<close> is
  \<open>logTable[a]\<close> for \<open>a\<close> from 1 to 255, \<open>ex k\<close> is \<open>expTable[k]\<close> for \<open>k\<close> from 0 to 255.\<close>

definition lg :: "int \<Rightarrow> int" where
  "lg a = logValues ! (nat a - 1)"

definition ex :: "int \<Rightarrow> int" where
  "ex k = expValues ! nat k"

text \<open>\<open>a ^ b\<close>: exclusive or of the operands as 32-bit signed integers.\<close>

definition add :: "int \<Rightarrow> int \<Rightarrow> int" where
  "add a b = sint ((word_of_int a :: 32 word) XOR word_of_int b)"

definition subtract :: "int \<Rightarrow> int \<Rightarrow> int" where
  "subtract a b = sint ((word_of_int a :: 32 word) XOR word_of_int b)"

definition multiply :: "int \<Rightarrow> int \<Rightarrow> jsval" where
  "multiply a b =
     (if a = 0 \<or> b = 0 then Fin 0
      else let logA = js_index logTable (Fin a);
               logB = js_index logTable (Fin b);
               logResult = js_mod255 (js_add logA logB)
           in js_index expTable logResult)"

definition divide :: "int \<Rightarrow> int \<Rightarrow> error + jsval" where
  "divide a b =
     (if a = 0 then Inr (Fin 0)
      else if b = 0 then Inl DivisionByZero
      else let logA = js_index logTable (Fin a);
               logB = js_index logTable (Fin b);
               logResult = js_mod255 (js_add (js_sub logA logB) (Fin 255))
           in Inr (js_index expTable logResult))"

definition power :: "int \<Rightarrow> int \<Rightarrow> jsval" where
  "power x n = js_index expTable (js_mod255 (js_mul (js_index logTable (Fin x)) n))"

text \<open>A field element: an integer in the range 0 to 255.\<close>

fun isFieldElement :: "jsval \<Rightarrow> bool" where
  "isFieldElement (Fin k) = (0 \<le> k \<and> k \<le> 255)"
| "isFieldElement _ = False"

section \<open>Evaluation rules\<close>

lemma bitLength_numeral [simp]:
  "bitLength 0 = 0"
  "bitLength (Suc 0) = 1"
  "bitLength (numeral (Num.Bit0 k)) = Suc (bitLength (numeral k))"
  "bitLength (numeral (Num.Bit1 k)) = Suc (bitLength (numeral k))"
  "bitLength (numeral Num.One) = 1"
proof -
  show "bitLength 0 = 0" by (simp add: bitLength.simps)
  show one: "bitLength (Suc 0) = 1" by (simp add: bitLength.simps [of "Suc 0"] bitLength.simps [of 0])
  have "numeral (Num.Bit0 k) div 2 = (numeral k :: nat)"
    by simp
  then show "bitLength (numeral (Num.Bit0 k)) = Suc (bitLength (numeral k))"
    by (subst bitLength.simps) simp
  have "numeral (Num.Bit1 k) div 2 = (numeral k :: nat)"
    by simp
  then show "bitLength (numeral (Num.Bit1 k)) = Suc (bitLength (numeral k))"
    by (subst bitLength.simps) simp
  show "bitLength (numeral Num.One) = 1" using one by simp
qed


lemmas bb_defs = appendBits_def realLength_def ensureCapacity_def
      orBit_def advance_def Let_def

text \<open>The encoder on the input of the repository's test, one \<open>appendBits\<close> at a time.\<close>

lemma encodeAlphanumeric_AC_42:
  "encodeAlphanumeric ''AC-42'' 1 M =
     Inr \<lparr>buffer = [32, 41, 206, 231, 33, 0, 0, 0, 0, 0, 0, 0, 0, 0, 0, 0],
          bytePointer = 6, bitPointer = 0\<rparr>"
proof -
  have s0: "new_BitBuffer 16 =
      \<lparr>buffer = [0, 0, 0, 0, 0, 0, 0, 0, 0, 0, 0, 0, 0, 0, 0, 0], bytePointer = 0, bitPointer = 0\<rparr>"
    by (simp add: new_BitBuffer_def eval_nat_numeral)
  have s1: "appendBits 2 (Some 4) (new_BitBuffer 16) =
      \<lparr>buffer = [32, 0, 0, 0, 0, 0, 0, 0, 0, 0, 0, 0, 0, 0, 0, 0], bytePointer = 0, bitPointer = 4\<rparr>"
    unfolding s0 by (simp add: bb_defs)
  have s2: "appendBits 5 (Some 9)
      \<lparr>buffer = [32, 0, 0, 0, 0, 0, 0, 0, 0, 0, 0, 0, 0, 0, 0, 0], bytePointer = 0, bitPointer = 4\<rparr> =
      \<lparr>buffer = [32, 40, 0, 0, 0, 0, 0, 0, 0, 0, 0, 0, 0, 0, 0, 0], bytePointer = Suc 0, bitPointer = 5\<rparr>"
    by (simp add: bb_defs)
  have s3: "appendBits 462 (Some 11)
      \<lparr>buffer = [32, 40, 0, 0, 0, 0, 0, 0, 0, 0, 0, 0, 0, 0, 0, 0], bytePointer = Suc 0, bitPointer = 5\<rparr> =
      \<lparr>buffer = [32, 41, 206, 0, 0, 0, 0, 0, 0, 0, 0, 0, 0, 0, 0, 0], bytePointer = 3, bitPointer = 0\<rparr>"
    by (simp add: bb_defs)
  have s4: "appendBits 1849 (Some 11)
      \<lparr>buffer = [32, 41, 206, 0, 0, 0, 0, 0, 0, 0, 0, 0, 0, 0, 0, 0], bytePointer = 3, bitPointer = 0\<rparr> =
      \<lparr>buffer = [32, 41, 206, 231, 32, 0, 0, 0, 0, 0, 0, 0, 0, 0, 0, 0], bytePointer = 4, bitPointer = 3\<rparr>"
    by (simp add: bb_defs)
  have s5: "appendBits 2 (Some 6)
      \<lparr>buffer = [32, 41, 206, 231, 32, 0, 0, 0, 0, 0, 0, 0, 0, 0, 0, 0], bytePointer = 4, bitPointer = 3\<rparr> =
      \<lparr>buffer = [32, 41, 206, 231, 33, 0, 0, 0, 0, 0, 0, 0, 0, 0, 0, 0], bytePointer = 5, bitPointer = 1\<rparr>"
    by (simp add: bb_defs)
  have s6: "appendBits 0 (Some 4)
      \<lparr>buffer = [32, 41, 206, 231, 33, 0, 0, 0, 0, 0, 0, 0, 0, 0, 0, 0], bytePointer = 5, bitPointer = 1\<rparr> =
      \<lparr>buffer = [32, 41, 206, 231, 33, 0, 0, 0, 0, 0, 0, 0, 0, 0, 0, 0], bytePointer = 5, bitPointer = 5\<rparr>"
    by (simp add: bb_defs)
  have len: "length ''AC-42'' = 5" by simp
  have tab: "ALPHANUMERIC_ENCODING_TABLE CHR ''A'' = Some 10" "ALPHANUMERIC_ENCODING_TABLE CHR ''C'' = Some 12"
    "ALPHANUMERIC_ENCODING_TABLE CHR ''-'' = Some 41" "ALPHANUMERIC_ENCODING_TABLE CHR ''4'' = Some 4"
    "ALPHANUMERIC_ENCODING_TABLE CHR ''2'' = Some 2"
    by (simp_all add: ALPHANUMERIC_ENCODING_TABLE_def)
  have groups: "encodeGroups ''AC-42''
      \<lparr>buffer = [32, 40, 0, 0, 0, 0, 0, 0, 0, 0, 0, 0, 0, 0, 0, 0], bytePointer = Suc 0, bitPointer = 5\<rparr> =
      Inr \<lparr>buffer = [32, 41, 206, 231, 33, 0, 0, 0, 0, 0, 0, 0, 0, 0, 0, 0], bytePointer = 5, bitPointer = 1\<rparr>"
    by (simp add: tab falsy_def s3 s4 s5)
  have "encodeAlphanumeric ''AC-42'' 1 M =
      (case encodeGroups ''AC-42''
              (appendBits 5 (Some 9) (appendBits 2 (Some 4) (new_BitBuffer 16))) of
         Inl e \<Rightarrow> Inl e
       | Inr encoded' \<Rightarrow> Inr (padByte (appendBits 0 (Some 4) encoded')))"
    unfolding encodeAlphanumeric_def len
    by (simp add: getCharacterCountIndicatorSize_def MODE_INDICATOR_ALPHANUMERIC_def
        DATA_CODEWORDS_1M_def del: encodeGroups.simps)
  also have "\<dots> = Inr (padByte
      \<lparr>buffer = [32, 41, 206, 231, 33, 0, 0, 0, 0, 0, 0, 0, 0, 0, 0, 0],
       bytePointer = 5, bitPointer = 5\<rparr>)"
    by (simp only: s1 s2 groups s6 sum.case)
  finally show ?thesis
    by (simp add: padByte_def)
qed

lemma encode_AC_42:
  "encode ''AC-42'' Alphanumeric qrType =
     Inr \<lparr>buffer = [32, 41, 206, 231, 33, 0, 236, 17, 236, 17, 236, 17, 236, 17, 236, 17],
          bytePointer = 16, bitPointer = 0\<rparr>"
  by (simp add: encode_def encodeAlphanumeric_AC_42 fill_def padByte_def fillLoop.simps
      PAD_CODEWORDS_def)

text \<open>Which strings the encoder accepts: every character must have a table value that
  is not falsy.\<close>

lemma encodeGroups_succeeds_iff:
  "(\<exists>encoded'. encodeGroups data encoded = Inr encoded')
     \<longleftrightarrow> (\<forall>c\<in>set data. \<not> falsy (ALPHANUMERIC_ENCODING_TABLE c))"
  by (induction data encoded rule: encodeGroups.induct) (auto simp: Let_def)

lemma encodeAlphanumeric_succeeds_iff:
  "(\<exists>encoded. encodeAlphanumeric data 1 M = Inr encoded)
     \<longleftrightarrow> (\<forall>c\<in>set data. \<exists>v. ALPHANUMERIC_ENCODING_TABLE c = Some v \<and> v \<noteq> 0)"
proof -
  have "(\<exists>encoded. encodeAlphanumeric data 1 M = Inr encoded)
     \<longleftrightarrow> (\<exists>encoded'. encodeGroups data
            (appendBits (length data) (Some 9)
              (appendBits MODE_INDICATOR_ALPHANUMERIC (Some 4) (new_BitBuffer DATA_CODEWORDS_1M)))
          = Inr encoded')"
    by (auto simp: encodeAlphanumeric_def getCharacterCountIndicatorSize_def Let_def
        split: sum.splits)
  then show ?thesis
    unfolding encodeGroups_succeeds_iff by (auto simp: falsy_def)
qed

section \<open>The lookup tables\<close>

lemma tables_eq:
  "tables = (map Fin expValues @ replicate 256 Undefined, NegInfinity # map Fin logValues)"
  by code_simp

lemma expTable_eq: "expTable = map Fin expValues @ replicate 256 Undefined"
  by (simp add: expTable_def tables_eq)

lemma logTable_eq: "logTable = NegInfinity # map Fin logValues"
  by (simp add: logTable_def tables_eq)

lemma exp_log_values:
  "\<forall>i\<in>{0..<255::nat}. logValues ! (nat (expValues ! i) - 1) = int i
      \<and> 1 \<le> expValues ! i \<and> expValues ! i \<le> 255"
  by code_simp

lemma log_exp_values:
  "\<forall>i\<in>{0..<255::nat}. expValues ! nat (logValues ! i) = int i + 1
      \<and> 0 \<le> logValues ! i \<and> logValues ! i < 255"
  by code_simp

lemma length_expValues: "length expValues = 256"
  by (simp add: expValues_def)

lemma length_logValues: "length logValues = 255"
  by (simp add: logValues_def)

lemma js_index_logTable:
  assumes "1 \<le> a" "a \<le> 255"
  shows "js_index logTable (Fin a) = Fin (lg a)"
proof -
  have "nat a - 1 < length logValues" "nat a \<noteq> 0" "nat a < 256"
    using assms by (simp_all add: length_logValues)
  then show ?thesis
    using assms by (simp add: logTable_eq lg_def length_logValues nth_Cons')
qed

lemma js_index_logTable_0: "js_index logTable (Fin 0) = NegInfinity"
  by (simp add: logTable_eq)

lemma js_index_expTable:
  assumes "0 \<le> k" "k \<le> 255"
  shows "js_index expTable (Fin k) = Fin (ex k)"
proof -
  have "nat k < length expValues"
    using assms by (simp add: length_expValues)
  then show ?thesis
    using assms by (simp add: expTable_eq ex_def length_expValues nth_append)
qed

lemma lg_range:
  assumes "1 \<le> a" "a \<le> 255"
  shows "0 \<le> lg a" "lg a < 255" "ex (lg a) = a"
proof -
  have "nat a - 1 \<in> {0..<255}" using assms by auto
  from bspec [OF log_exp_values this]
  show "0 \<le> lg a" "lg a < 255" "ex (lg a) = a"
    using assms by (auto simp: lg_def ex_def)
qed

lemma ex_range:
  assumes "0 \<le> k" "k < 255"
  shows "1 \<le> ex k" "ex k \<le> 255" "lg (ex k) = k"
proof -
  have "nat k \<in> {0..<255}" using assms by auto
  from bspec [OF exp_log_values this]
  show "1 \<le> ex k" "ex k \<le> 255" "lg (ex k) = k"
    using assms by (auto simp: lg_def ex_def)
qed

lemma js_mod255_nonneg: "0 \<le> x \<Longrightarrow> js_mod255 (Fin x) = Fin (x mod 255)"
  by (cases "x = 0") simp_all

lemma multiply_nonzero:
  assumes "1 \<le> a" "a \<le> 255" "1 \<le> b" "b \<le> 255"
  shows "multiply a b = Fin (ex ((lg a + lg b) mod 255))"
proof -
  have nonneg: "0 \<le> lg a + lg b"
    using lg_range(1) [OF assms(1,2)] lg_range(1) [OF assms(3,4)] by simp
  have range: "0 \<le> (lg a + lg b) mod 255" "(lg a + lg b) mod 255 \<le> 255"
    by simp_all
  have "multiply a b = js_index expTable (js_mod255 (Fin (lg a + lg b)))"
    using assms
    by (simp add: multiply_def js_index_logTable [OF assms(1,2)]
        js_index_logTable [OF assms(3,4)] del: js_index.simps js_mod255.simps)
  also have "\<dots> = js_index expTable (Fin ((lg a + lg b) mod 255))"
    by (simp only: js_mod255_nonneg [OF nonneg])
  also have "\<dots> = Fin (ex ((lg a + lg b) mod 255))"
    by (rule js_index_expTable [OF range])
  finally show ?thesis .
qed

lemma divide_nonzero:
  assumes "1 \<le> a" "a \<le> 255" "1 \<le> b" "b \<le> 255"
  shows "divide a b = Inr (Fin (ex ((lg a - lg b + 255) mod 255)))"
    and "divide a b = Inr (js_index expTable (Fin ((lg a - lg b + 255) mod 255)))"
proof -
  have nonneg: "0 \<le> lg a - lg b + 255"
    using lg_range(1) [OF assms(1,2)] lg_range(2) [OF assms(3,4)] by simp
  have range: "0 \<le> (lg a - lg b + 255) mod 255" "(lg a - lg b + 255) mod 255 \<le> 255"
    by simp_all
  have "divide a b = Inr (js_index expTable (js_mod255 (Fin (lg a - lg b + 255))))"
    using assms
    by (simp add: divide_def js_sub_def js_index_logTable [OF assms(1,2)]
        js_index_logTable [OF assms(3,4)] del: js_index.simps js_mod255.simps)
  also have "\<dots> = Inr (js_index expTable (Fin ((lg a - lg b + 255) mod 255)))"
    by (simp only: js_mod255_nonneg [OF nonneg])
  finally show "divide a b = Inr (js_index expTable (Fin ((lg a - lg b + 255) mod 255)))" .
  then show "divide a b = Inr (Fin (ex ((lg a - lg b + 255) mod 255)))"
    by (simp only: js_index_expTable [OF range])
qed

text \<open>The cases of \<open>divide\<close>, the zero numerator first, as the code tests it.\<close>

lemma divide_cases:
  "(a = 0 \<longrightarrow> divide a b = Inr (Fin 0))
   \<and> (a \<noteq> 0 \<and> b = 0 \<longrightarrow> divide a b = Inl DivisionByZero)
   \<and> (1 \<le> a \<and> a \<le> 255 \<and> 1 \<le> b \<and> b \<le> 255 \<longrightarrow>
        (\<exists>la lb. js_index logTable (Fin a) = Fin la \<and> js_index logTable (Fin b) = Fin lb
           \<and> divide a b = Inr (js_index expTable (Fin ((la - lb + 255) mod 255)))))"
proof (intro conjI impI)
  show "a = 0 \<Longrightarrow> divide a b = Inr (Fin 0)"
    by (simp add: divide_def)
  show "a \<noteq> 0 \<and> b = 0 \<Longrightarrow> divide a b = Inl DivisionByZero"
    by (simp add: divide_def)
  assume r: "1 \<le> a \<and> a \<le> 255 \<and> 1 \<le> b \<and> b \<le> 255"
  then have a: "1 \<le> a" "a \<le> 255" and b: "1 \<le> b" "b \<le> 255"
    by simp_all
  show "\<exists>la lb. js_index logTable (Fin a) = Fin la \<and> js_index logTable (Fin b) = Fin lb
      \<and> divide a b = Inr (js_index expTable (Fin ((la - lb + 255) mod 255)))"
    using js_index_logTable [OF a] js_index_logTable [OF b] divide_nonzero(2) [OF a b]
    by blast
qed

text \<open>
  Field closure, for operands that are field elements; for \<open>power\<close>, a base that is not 0
  and a non-negative exponent up to \<open>2^53 / 254\<close>, for which the product is exact.
\<close>

lemma add_closed:
  assumes "0 \<le> a" "a \<le> 255" "0 \<le> b" "b \<le> 255"
  shows "add a b = a XOR b" and "0 \<le> add a b" and "add a b \<le> 255"
proof -
  have nonneg: "0 \<le> a XOR b"
    using assms by simp
  have "a XOR b < 2 ^ 8"
    using assms by (intro XOR_upper) simp_all
  then have less: "a XOR b < 256"
    by simp
  have "add a b = sint (word_of_int (a XOR b) :: 32 word)"
    by (simp add: add_def of_int_xor_eq)
  also have "\<dots> = signed_take_bit 31 (a XOR b)"
    by (simp add: signed_of_int)
  also have "\<dots> = a XOR b"
  proof (rule signed_take_bit_int_eq_self)
    have "- (2 ^ 31) \<le> (0::int)" by simp
    then show "- (2 ^ 31) \<le> a XOR b"
      using nonneg by (rule order_trans)
    have "(256::int) < 2 ^ 31" by simp
    with less show "a XOR b < 2 ^ 31"
      by (rule less_trans)
  qed
  finally show "add a b = a XOR b" .
  with nonneg less show "0 \<le> add a b" and "add a b \<le> 255"
    by simp_all
qed

lemma subtract_closed:
  assumes "0 \<le> a" "a \<le> 255" "0 \<le> b" "b \<le> 255"
  shows "subtract a b = add a b" and "0 \<le> subtract a b" and "subtract a b \<le> 255"
  using add_closed(2,3) [OF assms] by (simp_all add: subtract_def add_def)

lemma multiply_closed:
  assumes "0 \<le> a" "a \<le> 255" "0 \<le> b" "b \<le> 255"
  shows "isFieldElement (multiply a b)"
proof (cases "a = 0 \<or> b = 0")
  case True
  then show ?thesis by (auto simp: multiply_def)
next
  case False
  then have a: "1 \<le> a" and b: "1 \<le> b"
    using assms by simp_all
  have "0 \<le> (lg a + lg b) mod 255" "(lg a + lg b) mod 255 < 255"
    by simp_all
  from ex_range(1,2) [OF this] show ?thesis
    by (simp add: multiply_nonzero [OF a assms(2) b assms(4)])
qed

lemma divide_closed:
  assumes "0 \<le> a" "a \<le> 255" "1 \<le> b" "b \<le> 255"
  shows "\<exists>r. divide a b = Inr r \<and> isFieldElement r"
proof (cases "a = 0")
  case True
  then show ?thesis by (simp add: divide_def)
next
  case False
  then have a: "1 \<le> a"
    using assms by simp
  have "0 \<le> (lg a - lg b + 255) mod 255" "(lg a - lg b + 255) mod 255 < 255"
    by simp_all
  from ex_range(1,2) [OF this] show ?thesis
    by (simp add: divide_nonzero(1) [OF a assms(2,3,4)])
qed

lemma js_round_exact: "\<bar>x\<bar> \<le> 2 ^ 53 \<Longrightarrow> js_round x = Fin x"
  by (simp add: js_round_def)

lemma power_closed:
  assumes "1 \<le> x" "x \<le> 255" "0 \<le> n" "254 * n \<le> 2 ^ 53"
  shows "isFieldElement (power x n)"
proof -
  have lg: "0 \<le> lg x" "lg x \<le> 254"
    using lg_range(1,2) [OF assms(1,2)] by simp_all
  have nonneg: "0 \<le> lg x * n"
    using lg(1) assms(3) by simp
  have "lg x * n \<le> 254 * n"
    using lg(2) assms(3) by (rule mult_right_mono)
  with nonneg assms(4) have exact: "js_round (lg x * n) = Fin (lg x * n)"
    by (intro js_round_exact) simp
  have range: "0 \<le> (lg x * n) mod 255" "(lg x * n) mod 255 < 255"
    by simp_all
  then have le: "(lg x * n) mod 255 \<le> 255"
    by simp
  have "power x n = js_index expTable (js_mod255 (Fin (lg x * n)))"
    by (simp add: power_def js_index_logTable [OF assms(1,2)] exact
        del: js_index.simps js_mod255.simps)
  also have "\<dots> = js_index expTable (Fin ((lg x * n) mod 255))"
    by (simp only: js_mod255_nonneg [OF nonneg])
  also have "\<dots> = Fin (ex ((lg x * n) mod 255))"
    by (rule js_index_expTable [OF range(1) le])
  finally show ?thesis
    using ex_range(1,2) [OF range] by simp
qed

text \<open>
  Beyond that bound the product is rounded, and the result is the power of another
  exponent: \<open>254 * (2^47 + 1)\<close> is rounded up by 2, and \<open>power(142, 2^47 + 1)\<close> is 133,
  not the 102 of the exact exponent. An exponent near the largest float makes the
  product infinite and the result \<open>undefined\<close>.
\<close>

lemma js_mul_rounds:
  "js_mul (Fin 254) (2 ^ 47 + 1) = Fin (254 * (2 ^ 47 + 1) + 2)"
  "js_mod255 (js_mul (Fin 254) (2 ^ 47 + 1)) = Fin 128"
  "js_mul (Fin 25) (2 ^ 1023) = PosInfinity"
  by (simp_all add: js_round_def Let_def)

lemma power_rounds: "power 142 (2 ^ 47 + 1) = Fin 133"
proof -
  have l: "js_index logTable (Fin 142) = Fin 254"
    using js_index_logTable [of 142] by (simp add: lg_def logValues_def)
  have e: "js_index expTable (Fin 128) = Fin 133"
    using js_index_expTable [of 128] by (simp add: ex_def expValues_def)
  show ?thesis
    by (simp only: power_def l js_mul_rounds(2) e)
qed

section \<open>The loop of \<open>fill\<close>\<close>

text \<open>What the loop does from any state, for the two values that the index takes.\<close>

lemma fillLoop_effect:
  "i < 2 \<Longrightarrow>
   buffer (fillLoop i s) =
      take (bytePointer s) (buffer s)
        @ map (\<lambda>k. PAD_CODEWORDS ! ((i + k) mod 2)) [0..<length (buffer s) - bytePointer s]
   \<and> bytePointer (fillLoop i s) = max (bytePointer s) (length (buffer s))
   \<and> bitPointer (fillLoop i s) = bitPointer s"
proof (induction i s rule: fillLoop.induct)
  case (1 i s)
  show ?case
  proof (cases "bytePointer s < length (buffer s)")
    case False
    then show ?thesis
      by (simp add: fillLoop.simps [of i s])
  next
    case True
    let ?s' = "s\<lparr>buffer := (buffer s)[bytePointer s := PAD_CODEWORDS ! i],
                  bytePointer := bytePointer s + 1\<rparr>"
    have step: "fillLoop i s = fillLoop ((i + 1) mod 2) ?s'"
      using True by (simp add: fillLoop.simps [of i s])
    obtain n where n: "length (buffer s) - bytePointer s = Suc n"
      using True by (cases "length (buffer s) - bytePointer s") auto
    then have n': "length (buffer s) - Suc (bytePointer s) = n"
      by simp
    have idx: "(Suc i mod 2 + k) mod 2 = Suc (i + k) mod 2" for k
      by presburger
    have i: "i mod 2 = i"
      using "1.prems" by simp
    have pre: "take (Suc (bytePointer s)) ((buffer s)[bytePointer s := PAD_CODEWORDS ! i])
        = take (bytePointer s) (buffer s) @ [PAD_CODEWORDS ! i]"
      using True by (simp add: take_Suc_conv_app_nth)
    from "1.IH" [OF True] show ?thesis
      unfolding step using True
      by (simp add: n n' idx i pre map_upt_Suc del: upt_Suc)
  qed
qed

text \<open>The whole of \<open>fill\<close>, with the alignment written out.\<close>

lemma fill_effect:
  "buffer (fill s) =
      take (if 0 < bitPointer s then bytePointer s + 1 else bytePointer s) (buffer s)
        @ map (\<lambda>k. if even k then 0xEC else 0x11)
            [0..<length (buffer s) - (if 0 < bitPointer s then bytePointer s + 1 else bytePointer s)]
   \<and> length (buffer (fill s)) = length (buffer s)
   \<and> bytePointer (fill s) =
        max (if 0 < bitPointer s then bytePointer s + 1 else bytePointer s) (length (buffer s))
   \<and> bitPointer (fill s) = (if 0 < bitPointer s then 0 else bitPointer s)
   \<and> fill (fill s) = fill s"
proof -
  let ?p = "if 0 < bitPointer s then bytePointer s + 1 else bytePointer s"
  have pb: "buffer (padByte s) = buffer s" "bytePointer (padByte s) = ?p"
      "bitPointer (padByte s) = (if 0 < bitPointer s then 0 else bitPointer s)"
    by (simp_all add: padByte_def)
  have pad: "PAD_CODEWORDS ! (k mod 2) = (if even k then 0xEC else 0x11)" for k
    by (cases "even k") (auto simp: PAD_CODEWORDS_def mod2_eq_if)
  have eff: "buffer (fill s) =
      take ?p (buffer s)
        @ map (\<lambda>k. if even k then 0xEC else 0x11) [0..<length (buffer s) - ?p]"
    "bytePointer (fill s) = max ?p (length (buffer s))"
    "bitPointer (fill s) = (if 0 < bitPointer s then 0 else bitPointer s)"
    using fillLoop_effect [of 0 "padByte s"] by (simp_all add: fill_def pb pad)
  have len: "length (buffer (fill s)) = length (buffer s)"
    by (simp add: eff(1))
  have "bitPointer (fill s) \<le> 0"
    by (simp add: eff(3))
  then have "padByte (fill s) = fill s"
    by (simp add: padByte_def)
  moreover have "\<not> bytePointer (fill s) < length (buffer (fill s))"
    by (simp add: eff(2) len)
  ultimately have "fill (fill s) = fill s"
    by (simp add: fill_def [of "fill s"] fillLoop.simps [of 0 "fill s"])
  with eff len show ?thesis by simp
qed

section \<open>The loop of \<open>appendBits\<close>\<close>

text \<open>One iteration sets one bit of the stream by \<open>|=\<close>; the bits it cannot reach stay.\<close>

lemma lsb_of_div: "(word_of_nat (v div 2 ^ i) AND 1 :: 32 word) = of_bool (bit v i)"
  unfolding and_one_eq mod_2_eq_odd by (simp add: bit_iff_odd)

lemma store_or:
  "(ucast ((ucast (x :: 8 word) :: 32 word) OR push_bit k (of_bool c)) :: 8 word)
     = x OR push_bit k (of_bool c)"
  by (rule bit_eqI) (auto simp: bit_simps)

lemma bit_or_single:
  "n < 8 \<Longrightarrow> bit ((x :: 8 word) OR push_bit k (of_bool c)) n = (bit x n \<or> (c \<and> n = k))"
  by (auto simp: bit_simps)

lemma position_split:
  fixes m :: nat
  assumes "b < 8"
  shows "(m = 8 * B + b) = (m div 8 = B \<and> 7 - m mod 8 = 7 - b)"
proof -
  define r where "r = m mod 8"
  have r: "r < 8" by (simp add: r_def)
  have m: "m = 8 * (m div 8) + r" by (simp add: r_def)
  have "(7 - r = 7 - b) = (r = b)"
    using r assms by arith
  moreover have "(m = 8 * B + b) = (m div 8 = B \<and> r = b)"
  proof
    assume "m = 8 * B + b"
    with assms show "m div 8 = B \<and> r = b" by (simp add: r_def)
  next
    assume "m div 8 = B \<and> r = b"
    with m show "m = 8 * B + b" by simp
  qed
  ultimately show ?thesis by (simp add: r_def)
qed


lemma orBit_fields:
  "bytePointer (orBit v i s) = bytePointer s"
  "bitPointer (orBit v i s) = bitPointer s"
  "length (buffer (orBit v i s)) = length (buffer s)"
  by (simp_all add: orBit_def Let_def)

lemma orBit_buffer:
  assumes "0 \<le> bitPointer s" "bitPointer s < 8"
  shows "buffer (orBit v i s) =
    (if bytePointer s < length (buffer s)
     then (buffer s)[bytePointer s :=
            buffer s ! bytePointer s OR push_bit (7 - nat (bitPointer s)) (of_bool (bit v i))]
     else buffer s)"
proof -
  have "nat ((7 - bitPointer s) mod 32) = 7 - nat (bitPointer s)"
    using assms by (simp add: nat_diff_distrib')
  then show ?thesis
    by (simp add: orBit_def Let_def lsb_of_div store_or)
qed

lemma advance_fields:
  assumes "0 \<le> bitPointer s" "bitPointer s < 8"
  shows "buffer (advance s) = buffer s"
    and "cursor (advance s) = cursor s + 1"
    and "0 \<le> bitPointer (advance s)" and "bitPointer (advance s) < 8"
  using assms by (auto simp: advance_def cursor_def)

lemma step_bit:
  assumes "0 \<le> bitPointer s" "bitPointer s < 8" "m < 8 * length (buffer s)"
  shows "streamBit (buffer (orBit v i s)) m = (streamBit (buffer s) m \<or> (m = cursor s \<and> bit v i))"
proof (cases "bytePointer s < length (buffer s)")
  case False
  then have "m \<noteq> cursor s"
    using assms(3) by (simp add: cursor_def)
  with False show ?thesis
    by (simp add: orBit_buffer [OF assms(1,2)])
next
  case True
  have "nat (bitPointer s) < 8"
    using assms(1,2) by simp
  from position_split [OF this]
  have eq: "m = cursor s \<longleftrightarrow> m div 8 = bytePointer s \<and> 7 - m mod 8 = 7 - nat (bitPointer s)"
    by (simp add: cursor_def)
  have "m div 8 < length (buffer s)"
    using assms(3) by simp
  then show ?thesis
    using True
    by (auto simp: orBit_buffer [OF assms(1,2)] streamBit_def nth_list_update bit_or_single eq)
qed

lemma writeBits_effect:
  assumes "0 \<le> bitPointer s" "bitPointer s < 8"
  shows "length (buffer (writeBits v n s)) = length (buffer s)
    \<and> cursor (writeBits v n s) = cursor s + n
    \<and> 0 \<le> bitPointer (writeBits v n s) \<and> bitPointer (writeBits v n s) < 8
    \<and> (\<forall>m < 8 * length (buffer s).
          streamBit (buffer (writeBits v n s)) m =
            (streamBit (buffer s) m
             \<or> (cursor s \<le> m \<and> m < cursor s + n \<and> bit v (n - 1 - (m - cursor s)))))"
  using assms
proof (induction n arbitrary: s)
  case 0
  then show ?case by auto
next
  case (Suc i)
  let ?t = "advance (orBit v i s)"
  have o: "0 \<le> bitPointer (orBit v i s)" "bitPointer (orBit v i s) < 8"
    using Suc.prems by (simp_all add: orBit_fields)
  have t: "0 \<le> bitPointer ?t" "bitPointer ?t < 8"
    using advance_fields(3,4) [OF o] by simp_all
  have len_t: "length (buffer ?t) = length (buffer s)"
    by (simp add: advance_fields(1) [OF o] orBit_fields)
  have cur_t: "cursor ?t = cursor s + 1"
    using advance_fields(2) [OF o] by (simp add: cursor_def orBit_fields)
  have bit_t: "streamBit (buffer ?t) m = (streamBit (buffer s) m \<or> (m = cursor s \<and> bit v i))"
    if "m < 8 * length (buffer s)" for m
    using step_bit [OF Suc.prems that] by (simp add: advance_fields(1) [OF o])
  note IH = Suc.IH [OF t]
  have "streamBit (buffer (writeBits v i ?t)) m =
      (streamBit (buffer s) m
       \<or> (cursor s \<le> m \<and> m < cursor s + Suc i \<and> bit v (Suc i - 1 - (m - cursor s))))"
    if m: "m < 8 * length (buffer s)" for m
  proof -
    have "streamBit (buffer (writeBits v i ?t)) m =
        (streamBit (buffer ?t) m
         \<or> (cursor ?t \<le> m \<and> m < cursor ?t + i \<and> bit v (i - 1 - (m - cursor ?t))))"
      using IH m by (simp add: len_t)
    also have "\<dots> = ((streamBit (buffer s) m \<or> (m = cursor s \<and> bit v i))
         \<or> (cursor s + 1 \<le> m \<and> m < cursor s + 1 + i \<and> bit v (i - 1 - (m - (cursor s + 1)))))"
      by (simp only: bit_t [OF m] cur_t)
    also have "\<dots> = (streamBit (buffer s) m
       \<or> (cursor s \<le> m \<and> m < cursor s + Suc i \<and> bit v (Suc i - 1 - (m - cursor s))))"
    proof (cases "m = cursor s")
      case True
      then show ?thesis by simp
    next
      case False
      have "i - 1 - (m - (cursor s + 1)) = i - (m - cursor s)" if "cursor s + 1 \<le> m"
        using that by simp
      with False show ?thesis
        by (auto simp: le_Suc_eq)
    qed
    finally show ?thesis .
  qed
  with IH show ?case
    by (simp add: len_t cur_t)
qed

lemma less_two_power_bitLength: "v < 2 ^ bitLength v"
proof (induction v rule: bitLength.induct)
  case (1 n)
  show ?case
  proof (cases "n = 0")
    case True
    then show ?thesis by (simp add: bitLength.simps [of n])
  next
    case False
    from "1.IH" [OF False] have "n div 2 < 2 ^ bitLength (n div 2)" .
    then have "n < 2 * 2 ^ bitLength (n div 2)"
      by linarith
    with False show ?thesis
      by (simp add: bitLength.simps [of n])
  qed
qed

lemma bitLength_le_realLength: "bitLength v \<le> realLength v"
  by (simp add: realLength_def bitLength.simps [of 0])

lemma realLength_pos: "0 < realLength v"
  by (cases "v = 0") (simp_all add: realLength_def bitLength.simps [of v])

lemma not_bit_above_realLength:
  assumes "realLength v \<le> j"
  shows "\<not> bit v j"
proof -
  have "v < 2 ^ bitLength v"
    by (rule less_two_power_bitLength)
  also have "(2::nat) ^ bitLength v \<le> 2 ^ j"
    using assms bitLength_le_realLength [of v] by (intro power_increasing) auto
  finally have "v div 2 ^ j = 0"
    by simp
  then show ?thesis
    by (simp add: bit_iff_odd)
qed

lemma ensureCapacity_fields:
  "bytePointer (ensureCapacity l s) = bytePointer s"
  "bitPointer (ensureCapacity l s) = bitPointer s"
  "\<exists>k. buffer (ensureCapacity l s) = buffer s @ replicate k 0"
  by (auto simp: ensureCapacity_def Let_def intro: exI [of _ 0])

lemma streamBit_append_zeros:
  assumes "m < 8 * (length buf + k)"
  shows "streamBit (buf @ replicate k 0) m = (m < 8 * length buf \<and> streamBit buf m)"
proof (cases "m < 8 * length buf")
  case True
  then have "m div 8 < length buf" by simp
  with True show ?thesis by (simp add: streamBit_def nth_append)
next
  case False
  then have "\<not> m div 8 < length buf" "m div 8 - length buf < k"
    using assms by (simp_all add: less_mult_imp_div_less)
  with False show ?thesis by (simp add: streamBit_def nth_append)
qed

text \<open>The state in which the loop of \<open>appendBits\<close> starts, for a length that covers the value.\<close>

lemma appendBits_as_writeBits:
  assumes "0 \<le> bitPointer s" "bitPointer s < 8" "realLength v \<le> len"
  shows "\<exists>s3. appendBits v (Some (int len)) s = writeBits v (realLength v) s3
     \<and> buffer s3 = buffer (ensureCapacity (int len) s)
     \<and> cursor s3 = cursor s + (len - realLength v)
     \<and> 0 \<le> bitPointer s3 \<and> bitPointer s3 < 8"
proof -
  define s1 where "s1 = ensureCapacity (int len) s"
  define p where "p = bitPointer s + (int len - int (realLength v))"
  define s3 where "s3 =
    (if 8 \<le> p then s1\<lparr>bytePointer := bytePointer s + nat (p div 8), bitPointer := p mod 8\<rparr>
     else s1\<lparr>bitPointer := p\<rparr>)"
  have len: "int len \<noteq> 0"
    using assms(3) realLength_pos [of v] by simp
  have p: "0 \<le> p" "nat p = nat (bitPointer s) + (len - realLength v)"
    using assms by (simp_all add: p_def nat_add_distrib nat_diff_distrib')
  have "appendBits v (Some (int len)) s = writeBits v (realLength v) s3"
    using len by (simp add: appendBits_def Let_def s3_def s1_def p_def ensureCapacity_fields)
  moreover have "buffer s3 = buffer (ensureCapacity (int len) s)"
    by (simp add: s3_def s1_def)
  moreover have "cursor s3 = cursor s + (len - realLength v)"
  proof (cases "8 \<le> p")
    case True
    have "nat p = 8 * nat (p div 8) + nat (p mod 8)"
      using p(1) by (simp add: nat_div_distrib nat_mod_distrib)
    with True show ?thesis
      using p(2) by (simp add: s3_def s1_def cursor_def ensureCapacity_fields)
  next
    case False
    then show ?thesis
      using p(2) by (simp add: s3_def s1_def cursor_def ensureCapacity_fields)
  qed
  moreover have "0 \<le> bitPointer s3 \<and> bitPointer s3 < 8"
    using p(1) by (simp add: s3_def)
  ultimately show ?thesis by blast
qed

text \<open>
  The byte cursor stays within the storage: the capacity check counts
  \<open>ceil(length / 8)\<close> bytes from the byte cursor, and a write of \<open>length\<close> bits from a bit
  cursor below 8 ends at most that many bytes further.
\<close>

lemma step_cursor:
  assumes "bitPointer s < 8"
  shows "pos (advance (orBit v i s)) = pos s + 1"
    and "bitPointer (advance (orBit v i s)) < 8"
    and "8 * int (bytePointer (advance (orBit v i s))) \<le> max (8 * int (bytePointer s)) (pos s + 1)"
    and "length (buffer (advance (orBit v i s))) = length (buffer s)"
  using assms by (auto simp: advance_def orBit_def pos_def Let_def)

lemma writeBits_cursor:
  assumes "bitPointer s < 8"
  shows "pos (writeBits v n s) = pos s + int n
    \<and> bitPointer (writeBits v n s) < 8
    \<and> 8 * int (bytePointer (writeBits v n s)) \<le> max (8 * int (bytePointer s)) (pos s + int n)
    \<and> length (buffer (writeBits v n s)) = length (buffer s)"
  using assms
proof (induction n arbitrary: s)
  case 0
  then show ?case by simp
next
  case (Suc i)
  let ?t = "advance (orBit v i s)"
  note t = step_cursor [OF Suc.prems, of v i]
  from Suc.IH [OF t(2)] t show ?case
    by auto
qed

lemma byte_bound:
  fixes X :: int
  assumes "8 * X \<le> max (8 * B) P" "P \<le> 8 * (B + c) + 7" "B \<le> N" "B + c \<le> N"
  shows "X \<le> N"
proof -
  have "8 * X \<le> 8 * N + 7"
  proof (cases "8 * B \<le> P")
    case True
    with assms(1) have "8 * X \<le> P" by simp
    with assms(2,4) show ?thesis by (simp add: algebra_simps)
  next
    case False
    with assms(1) have "8 * X \<le> 8 * B" by simp
    with assms(3) show ?thesis by linarith
  qed
  then show ?thesis
    by presburger
qed

lemma ensureCapacity_pointers:
  "bytePointer (ensureCapacity l s) = bytePointer s"
  "bitPointer (ensureCapacity l s) = bitPointer s"
  by (simp_all add: ensureCapacity_def Let_def)

lemma appendBits_bytePointer_le:
  assumes "bitPointer s < 8" "bytePointer s \<le> length (buffer s)"
  shows "bytePointer (appendBits v len s) \<le> length (buffer (appendBits v len s))
    \<and> bitPointer (appendBits v len s) < 8"
proof -
  define rl where "rl = realLength v"
  define l where "l = (case len of None \<Rightarrow> int (realLength v)
    | Some k \<Rightarrow> if k = 0 then int (realLength v) else k)"
  define s1 where "s1 = ensureCapacity l s"
  define p where "p = bitPointer s + (l - int rl)"
  define s3 where "s3 =
    (if 8 \<le> p then s1\<lparr>bytePointer := bytePointer s + nat (p div 8), bitPointer := p mod 8\<rparr>
     else s1\<lparr>bitPointer := p\<rparr>)"
  have s1: "bytePointer s1 = bytePointer s" "bitPointer s1 = bitPointer s"
    by (simp_all add: s1_def ensureCapacity_pointers)
  define c where "c = - ((- l) div 8)"
  have c: "l \<le> 8 * c"
  proof -
    have "(- l) div 8 * 8 + (- l) mod 8 = - l" "0 \<le> (- l) mod 8"
      by simp_all
    then have "l \<le> 8 * (- ((- l) div 8))"
      by linarith
    then show ?thesis
      by (simp only: c_def)
  qed
  have cap: "int (bytePointer s) \<le> int (length (buffer s1))"
      "int (bytePointer s) + c \<le> int (length (buffer s1))"
    using assms(2) by (auto simp: s1_def ensureCapacity_def Let_def c_def)
  have r: "appendBits v len s = writeBits v rl s3"
    by (simp add: appendBits_def Let_def s3_def s1_def p_def l_def rl_def ensureCapacity_pointers)
  have s3: "bitPointer s3 < 8" "pos s3 = pos s + (l - int rl)"
      "8 * int (bytePointer s3) \<le> max (8 * int (bytePointer s)) (pos s + (l - int rl))"
      "length (buffer s3) = length (buffer s1)"
    by (auto simp: s3_def pos_def p_def s1)
  from writeBits_cursor [OF s3(1), of v rl]
  have w: "bitPointer (writeBits v rl s3) < 8"
      "8 * int (bytePointer (writeBits v rl s3)) \<le> max (8 * int (bytePointer s3)) (pos s3 + int rl)"
      "length (buffer (writeBits v rl s3)) = length (buffer s1)"
    by (simp_all add: s3(4))
  have "pos s3 + int rl = pos s + l"
    by (simp add: s3(2))
  with w(2) s3(3) have "8 * int (bytePointer (writeBits v rl s3))
      \<le> max (8 * int (bytePointer s)) (max (pos s + (l - int rl)) (pos s + l))"
    by linarith
  moreover have "pos s + (l - int rl) \<le> pos s + l"
    by simp
  ultimately have "8 * int (bytePointer (writeBits v rl s3)) \<le> max (8 * int (bytePointer s)) (pos s + l)"
    by linarith
  moreover have "pos s + l \<le> 8 * (int (bytePointer s) + c) + 7"
    using assms(1) c by (simp add: pos_def)
  ultimately have "int (bytePointer (writeBits v rl s3)) \<le> int (length (buffer s1))"
    using cap by (rule byte_bound)
  with w show ?thesis
    by (simp add: r)
qed

lemma appendAll_bytePointer_le:
  assumes "bitPointer s < 8" "bytePointer s \<le> length (buffer s)"
  shows "bytePointer (appendAll calls s) \<le> length (buffer (appendAll calls s))
    \<and> bitPointer (appendAll calls s) < 8"
  using assms
proof (induction calls arbitrary: s)
  case Nil
  then show ?case by simp
next
  case (Cons call calls)
  obtain v len where call: "call = (v, len)"
    by (cases call)
  from appendBits_bytePointer_le [OF Cons.prems, of v len]
  show ?case
    by (simp add: call Cons.IH)
qed

text \<open>
  More on one call: the storage never shrinks, a positive length keeps the bit cursor
  in 0 to 7, and the cursor advances by the length, also by a length shorter than the
  value.
\<close>

lemma writeBits_length: "length (buffer (writeBits v n s)) = length (buffer s)"
  by (induction n arbitrary: s) (simp_all add: advance_def orBit_fields)

lemma ensureCapacity_length_ge: "length (buffer s) \<le> length (buffer (ensureCapacity l s))"
  using ensureCapacity_fields(3) [of l s] by auto

lemma appendBits_length_ge: "length (buffer s) \<le> length (buffer (appendBits v len s))"
  by (simp add: appendBits_def Let_def writeBits_length ensureCapacity_length_ge)

lemma writeBits_bitPointer_nonneg:
  assumes "bitPointer s < 8" "0 \<le> bitPointer s + int n"
  shows "0 \<le> bitPointer (writeBits v n s)"
  using assms
proof (induction n arbitrary: s)
  case 0
  then show ?case by simp
next
  case (Suc i)
  let ?t = "advance (orBit v i s)"
  have "bitPointer ?t < 8" "0 \<le> bitPointer ?t + int i"
    using Suc.prems by (auto simp: advance_def orBit_fields)
  from Suc.IH [OF this] show ?case
    by simp
qed

lemma appendBits_bitPointer_range:
  assumes "0 \<le> bitPointer s" "bitPointer s < 8" "0 < k"
  shows "0 \<le> bitPointer (appendBits v (Some k) s)"
    and "bitPointer (appendBits v (Some k) s) < 8"
proof -
  define p where "p = bitPointer s + (k - int (realLength v))"
  define s1 where "s1 = ensureCapacity k s"
  define s3 where "s3 =
    (if 8 \<le> p then s1\<lparr>bytePointer := bytePointer s + nat (p div 8), bitPointer := p mod 8\<rparr>
     else s1\<lparr>bitPointer := p\<rparr>)"
  have r: "appendBits v (Some k) s = writeBits v (realLength v) s3"
    using assms(3)
    by (simp add: appendBits_def Let_def s3_def s1_def p_def ensureCapacity_pointers)
  have s3: "bitPointer s3 < 8" "0 \<le> bitPointer s3 + int (realLength v)"
    using assms by (auto simp: s3_def p_def)
  show "0 \<le> bitPointer (appendBits v (Some k) s)"
    unfolding r by (rule writeBits_bitPointer_nonneg [OF s3])
  show "bitPointer (appendBits v (Some k) s) < 8"
    unfolding r using writeBits_cursor [OF s3(1), of v "realLength v"] by simp
qed

lemma appendBits_advances:
  assumes "bitPointer s < 8" "k \<noteq> 0"
  shows "pos (appendBits v (Some k) s) = pos s + k"
proof -
  define p where "p = bitPointer s + (k - int (realLength v))"
  define s1 where "s1 = ensureCapacity k s"
  define s3 where "s3 =
    (if 8 \<le> p then s1\<lparr>bytePointer := bytePointer s + nat (p div 8), bitPointer := p mod 8\<rparr>
     else s1\<lparr>bitPointer := p\<rparr>)"
  have r: "appendBits v (Some k) s = writeBits v (realLength v) s3"
    using assms(2)
    by (simp add: appendBits_def Let_def s3_def s1_def p_def ensureCapacity_pointers)
  have s3: "bitPointer s3 < 8" "pos s3 = pos s + (k - int (realLength v))"
    using assms(1) by (auto simp: s3_def p_def s1_def pos_def ensureCapacity_pointers)
  from writeBits_cursor [OF s3(1), of v "realLength v"] show ?thesis
    by (simp add: r s3(2))
qed

text \<open>
  A length that covers the value. Let the bit cursor be in 0 to 7 and every bit of the
  stream from the cursor on be zero. If the write ends inside the storage as it is after
  the call, the bit at offset \<open>k\<close> from the old cursor is bit \<open>length - 1 - k\<close> of the value
  (the lowest \<open>length\<close> bits, most significant first, zeros above the width of the
  value), the bits before the old cursor are unchanged and the bits from the new cursor
  on are zero.
\<close>

lemma appendBits_writes_lowest_bits:
  fixes v len :: nat
  assumes inv: "0 \<le> bitPointer s" "bitPointer s < 8"
    and width: "realLength v \<le> len"
    and zero: "\<forall>m. cursor s \<le> m \<and> m < 8 * length (buffer s) \<longrightarrow> \<not> streamBit (buffer s) m"
    and cap: "cursor s + len \<le> 8 * length (buffer (appendBits v (Some (int len)) s))"
  shows "cursor (appendBits v (Some (int len)) s) = cursor s + len
    \<and> 0 \<le> bitPointer (appendBits v (Some (int len)) s)
    \<and> bitPointer (appendBits v (Some (int len)) s) < 8
    \<and> length (buffer s) \<le> length (buffer (appendBits v (Some (int len)) s))
    \<and> (\<forall>k<len. streamBit (buffer (appendBits v (Some (int len)) s)) (cursor s + k)
                = bit v (len - 1 - k))
    \<and> (\<forall>m. m < cursor s \<and> m < 8 * length (buffer s) \<longrightarrow>
          streamBit (buffer (appendBits v (Some (int len)) s)) m = streamBit (buffer s) m)
    \<and> (\<forall>m. cursor s + len \<le> m \<and> m < 8 * length (buffer (appendBits v (Some (int len)) s)) \<longrightarrow>
          \<not> streamBit (buffer (appendBits v (Some (int len)) s)) m)"
proof -
  let ?r = "appendBits v (Some (int len)) s"
  let ?rl = "realLength v"
  obtain s3 where s3: "?r = writeBits v ?rl s3"
      "buffer s3 = buffer (ensureCapacity (int len) s)"
      "cursor s3 = cursor s + (len - ?rl)" "0 \<le> bitPointer s3" "bitPointer s3 < 8"
    using appendBits_as_writeBits [OF inv width] by blast
  obtain k where k: "buffer s3 = buffer s @ replicate k 0"
    using ensureCapacity_fields(3) [of "int len" s] s3(2) by auto
  note w = writeBits_effect [OF s3(4,5), of v ?rl]
  have length_r: "length (buffer ?r) = length (buffer s) + k"
    using w by (simp add: s3(1) k)
  have cursor_r: "cursor ?r = cursor s + len"
    using w width by (simp add: s3(1,3))
  have bits: "streamBit (buffer ?r) m =
      ((m < 8 * length (buffer s) \<and> streamBit (buffer s) m)
       \<or> (cursor s + (len - ?rl) \<le> m \<and> m < cursor s + len
           \<and> bit v (?rl - 1 - (m - (cursor s + (len - ?rl))))))"
    if "m < 8 * length (buffer ?r)" for m
  proof -
    have m: "m < 8 * (length (buffer s) + k)"
      using that by (simp add: length_r)
    then have "m < 8 * length (buffer s3)"
      by (simp add: k)
    with w have "streamBit (buffer ?r) m =
      (streamBit (buffer s3) m
       \<or> (cursor s3 \<le> m \<and> m < cursor s3 + ?rl \<and> bit v (?rl - 1 - (m - cursor s3))))"
      by (simp add: s3(1))
    then show ?thesis
      using width by (simp add: s3(3) k streamBit_append_zeros [OF m])
  qed
  have written: "streamBit (buffer ?r) (cursor s + j) = bit v (len - 1 - j)" if "j < len" for j
  proof -
    have in_r: "cursor s + j < 8 * length (buffer ?r)"
      using that cap by simp
    have old: "\<not> (cursor s + j < 8 * length (buffer s) \<and> streamBit (buffer s) (cursor s + j))"
      using zero by auto
    show ?thesis
    proof (cases "len - ?rl \<le> j")
      case True
      then have "?rl - 1 - (cursor s + j - (cursor s + (len - ?rl))) = len - 1 - j"
        using that width by simp
      moreover have "cursor s + (len - ?rl) \<le> cursor s + j" "cursor s + j < cursor s + len"
        using True that by simp_all
      ultimately show ?thesis
        using old by (simp only: bits [OF in_r]) simp
    next
      case False
      then have "?rl \<le> len - 1 - j"
        by simp
      then have "\<not> bit v (len - 1 - j)"
        by (rule not_bit_above_realLength)
      moreover have "\<not> cursor s + (len - ?rl) \<le> cursor s + j"
        using False by simp
      ultimately show ?thesis
        using old by (simp only: bits [OF in_r]) simp
    qed
  qed
  have before: "streamBit (buffer ?r) m = streamBit (buffer s) m"
    if "m < cursor s \<and> m < 8 * length (buffer s)" for m
  proof -
    have "m < 8 * length (buffer ?r)"
      using that by (simp add: length_r)
    from bits [OF this] that show ?thesis by simp
  qed
  have after: "\<not> streamBit (buffer ?r) m"
    if "cursor s + len \<le> m \<and> m < 8 * length (buffer ?r)" for m
  proof -
    have "\<not> (m < 8 * length (buffer s) \<and> streamBit (buffer s) m)"
      using zero that by auto
    with bits [of m] that show ?thesis by simp
  qed
  from cursor_r w length_r written before after show ?thesis
    by (simp add: s3(1))
qed

text \<open>The two examples of the specification: \<open>appendBits(0b11, 5)\<close> on a fresh buffer, and
  \<open>appendBits(0b101, 3)\<close> followed by \<open>appendBits(0b110, 3)\<close>.\<close>

lemma appendBits_examples:
  "appendBits 3 (Some 5) (new_BitBuffer 1) = \<lparr>buffer = [0x18], bytePointer = 0, bitPointer = 5\<rparr>
   \<and> cursor (appendBits 3 (Some 5) (new_BitBuffer 1)) = 5
   \<and> map (streamBit (buffer (appendBits 3 (Some 5) (new_BitBuffer 1)))) [0, 1, 2, 3, 4, 5, 6, 7]
       = [False, False, False, True, True, False, False, False]
   \<and> appendBits 6 (Some 3) (appendBits 5 (Some 3) (new_BitBuffer 1))
       = \<lparr>buffer = [0xB8], bytePointer = 0, bitPointer = 6\<rparr>"
proof -
  let ?s = "\<lparr>buffer = [0], bytePointer = 0, bitPointer = 0\<rparr>"
  have n: "new_BitBuffer 1 = ?s"
    by (simp add: new_BitBuffer_def)
  have e: "appendBits 3 (Some 5) ?s = \<lparr>buffer = [0x18], bytePointer = 0, bitPointer = 5\<rparr>"
    by (simp add: bb_defs)
  have e2: "appendBits 6 (Some 3) (appendBits 5 (Some 3) ?s)
      = \<lparr>buffer = [0xB8], bytePointer = 0, bitPointer = 6\<rparr>"
    by (simp add: bb_defs)
  have h1: "0 \<le> bitPointer ?s" "bitPointer ?s < 8"
    by simp_all
  have h2: "realLength 3 \<le> 5"
    by (simp add: realLength_def)
  have h3: "\<forall>m. cursor ?s \<le> m \<and> m < 8 * length (buffer ?s) \<longrightarrow> \<not> streamBit (buffer ?s) m"
    by (simp add: streamBit_def)
  have h4: "cursor ?s + 5 \<le> 8 * length (buffer (appendBits 3 (Some (int 5)) ?s))"
    by (simp add: e cursor_def)
  from appendBits_writes_lowest_bits [OF h1 h2 h3 h4] e e2 show ?thesis
    unfolding n by (simp add: cursor_def streamBit_def)
qed

section \<open>The result of the encoder\<close>

text \<open>What \<open>encodeAlphanumeric\<close> returns is aligned and has at least the initial capacity.\<close>

lemma encodeGroups_invariant:
  assumes "encodeGroups data s = Inr s'" "0 \<le> bitPointer s" "bitPointer s < 8"
  shows "0 \<le> bitPointer s' \<and> bitPointer s' < 8 \<and> length (buffer s) \<le> length (buffer s')"
  using assms
proof (induction data s rule: encodeGroups.induct)
  case (1 encoded)
  then show ?case by simp
next
  case (2 cur encoded)
  then have "s' = appendBits (the (ALPHANUMERIC_ENCODING_TABLE cur)) (Some 6) encoded"
    by (simp add: Let_def split: if_splits)
  with "2.prems"(2,3) show ?case
    using appendBits_bitPointer_range [of encoded 6] appendBits_length_ge by simp
next
  case (3 cur nxt rest encoded)
  let ?t = "appendBits (the (ALPHANUMERIC_ENCODING_TABLE cur) * 45
              + the (ALPHANUMERIC_ENCODING_TABLE nxt)) (Some 11) encoded"
  from "3.prems"(1) have ok: "\<not> falsy (ALPHANUMERIC_ENCODING_TABLE cur)"
      "\<not> falsy (ALPHANUMERIC_ENCODING_TABLE nxt)" and rest: "encodeGroups rest ?t = Inr s'"
    by (simp_all add: Let_def split: if_splits)
  have t: "0 \<le> bitPointer ?t" "bitPointer ?t < 8"
    using appendBits_bitPointer_range [OF "3.prems"(2,3), of 11] by simp_all
  have "length (buffer encoded) \<le> length (buffer ?t)"
    by (rule appendBits_length_ge)
  moreover from "3.IH" [OF refl refl ok rest t]
  have "0 \<le> bitPointer s' \<and> bitPointer s' < 8 \<and> length (buffer ?t) \<le> length (buffer s')" .
  ultimately show ?case by simp
qed

lemma encodeAlphanumeric_result:
  assumes "encodeAlphanumeric data 1 M = Inr b"
  shows "bitPointer b = 0" and "16 \<le> length (buffer b)"
proof -
  let ?s0 = "new_BitBuffer DATA_CODEWORDS_1M"
  let ?s1 = "appendBits MODE_INDICATOR_ALPHANUMERIC (Some 4) ?s0"
  let ?s2 = "appendBits (length data) (Some 9) ?s1"
  from assms obtain s' where g: "encodeGroups data ?s2 = Inr s'"
      and b: "b = padByte (appendBits 0 (Some 4) s')"
    by (auto simp: encodeAlphanumeric_def getCharacterCountIndicatorSize_def Let_def
        split: sum.splits)
  have s1: "0 \<le> bitPointer ?s1" "bitPointer ?s1 < 8"
    using appendBits_bitPointer_range [of ?s0 4] by (simp_all add: new_BitBuffer_def)
  have s2: "0 \<le> bitPointer ?s2" "bitPointer ?s2 < 8"
    using appendBits_bitPointer_range [OF s1, of 9] by simp_all
  from encodeGroups_invariant [OF g s2]
  have s': "0 \<le> bitPointer s'" "bitPointer s' < 8" "length (buffer ?s2) \<le> length (buffer s')"
    by simp_all
  let ?s4 = "appendBits 0 (Some 4) s'"
  have s4: "0 \<le> bitPointer ?s4"
    using appendBits_bitPointer_range(1) [OF s'(1,2), of 4] by simp
  then show "bitPointer b = 0"
    by (simp add: b padByte_def)
  have "length (buffer ?s0) \<le> length (buffer ?s1)" "length (buffer ?s1) \<le> length (buffer ?s2)"
      "length (buffer s') \<le> length (buffer ?s4)"
    by (rule appendBits_length_ge)+
  moreover have "length (buffer ?s0) = 16"
    by (simp add: new_BitBuffer_def DATA_CODEWORDS_1M_def)
  moreover have "length (buffer b) = length (buffer ?s4)"
    by (simp add: b padByte_def)
  ultimately show "16 \<le> length (buffer b)"
    using s'(3) by linarith
qed

section \<open>Claims\<close>

text \<open>
  C1. The claim: during any sequence of \<open>appendBits\<close> calls the storage is grown whenever a
  write would pass its end, so no appended bit is lost, also when the append starts at a
  non-zero bit cursor. The code computes the required capacity from the byte cursor alone:
  on a fresh one-byte buffer, \<open>appendBits(0b1111, 4)\<close> followed by \<open>appendBits(0xFF, 8)\<close>
  leaves the storage at one byte, and the last four bits of the second call are dropped.
  (The first part of the claim holds: over any sequence of calls the byte cursor stays
  within the storage, lemma \<open>appendAll_bytePointer_le\<close>; it can end at the length of the
  storage with a non-zero bit cursor, as here.)
\<close>

theorem appendBits_drops_bits:
  "appendBits 0xFF (Some 8) (appendBits 0xF (Some 4) (new_BitBuffer 1))
     = \<lparr>buffer = [0xFF], bytePointer = 1, bitPointer = 4\<rparr>"
  by (simp add: appendBits_def realLength_def ensureCapacity_def new_BitBuffer_def
      orBit_def advance_def Let_def)

text \<open>
  C2 (as stated). The claim: \<open>encodeAlphanumeric("AC-42", 1, 'M')\<close> returns the 41 header
  and data bits, the terminator, the alignment, and then the pad pattern up to the
  capacity: the bytes \<open>20 29 CE E7 21 00\<close> followed by \<open>EC 11\<close> repeated. The function
  stops after \<open>padByte\<close>; \<open>fill\<close> is called by \<open>encode\<close> only, and the remaining ten bytes of
  what \<open>encodeAlphanumeric\<close> returns are zero.
\<close>

theorem encodeAlphanumeric_not_filled:
  "map_sum id buffer (encodeAlphanumeric ''AC-42'' 1 M) \<noteq>
     Inr [0x20, 0x29, 0xCE, 0xE7, 0x21, 0x00,
          0xEC, 0x11, 0xEC, 0x11, 0xEC, 0x11, 0xEC, 0x11, 0xEC, 0x11]"
  by (simp add: encodeAlphanumeric_AC_42)

text \<open>
  C2 (amended). \<open>encodeAlphanumeric("AC-42", 1, 'M')\<close> returns a 16-byte stream that holds
  exactly the bit sequence \<open>00100000001010011100111011100111001000010\<close>, then the 4-bit zero
  terminator and the zero bits of the alignment, with the cursor at byte 6, bit 0, and
  zeros in the remaining ten bytes (the string that the repository's test expects). The
  pad pattern is written by the top-level \<open>encode\<close>, which returns the same six bytes
  followed by \<open>EC 11\<close> five times.
\<close>

theorem encodeAlphanumeric_AC_42_bits:
  "encodeAlphanumeric ''AC-42'' 1 M =
     Inr \<lparr>buffer = [0x20, 0x29, 0xCE, 0xE7, 0x21, 0, 0, 0, 0, 0, 0, 0, 0, 0, 0, 0],
          bytePointer = 6, bitPointer = 0\<rparr>
   \<and> map_sum id toString (encodeAlphanumeric ''AC-42'' 1 M) =
     Inr (''00100000001010011100111011100111001000010'' @ ''0000'' @ ''000''
          @ replicate 80 CHR ''0'')
   \<and> map_sum id buffer (encode ''AC-42'' Alphanumeric qrType) =
     Inr [0x20, 0x29, 0xCE, 0xE7, 0x21, 0x00,
          0xEC, 0x11, 0xEC, 0x11, 0xEC, 0x11, 0xEC, 0x11, 0xEC, 0x11]"
  by (simp add: encodeAlphanumeric_AC_42 encode_AC_42 toString_def byteString_def
      upt_conv_Cons bit_numeral_word_iff numeral_eq_Suc)

text \<open>
  C3. The claim: every string over the 45-symbol alphabet is encoded without an
  \<open>InvalidCharacter\<close> failure, in particular a string containing \<open>0\<close>. The check is
  \<open>if (!currValue) throw\<close>, and the table value of \<open>0\<close> is the number 0, which is falsy:
  the one-character string \<open>"0"\<close> is rejected as non-alphanumeric, and so is \<open>"A0"\<close>, by
  the same test on the second character of a pair. (Lemma
  \<open>encodeAlphanumeric_succeeds_iff\<close>: the strings that are encoded are those of the
  44 symbols with a non-zero table value.)
\<close>

theorem encodeAlphanumeric_rejects_zero:
  "encodeAlphanumeric ''0'' 1 M = Inl (InvalidCharacter CHR ''0'')
   \<and> encodeAlphanumeric ''A0'' 1 M = Inl (InvalidCharacter CHR ''0'')
   \<and> ALPHANUMERIC_ENCODING_TABLE CHR ''0'' = Some 0"
  by (simp add: encodeAlphanumeric_def getCharacterCountIndicatorSize_def falsy_def
      ALPHANUMERIC_ENCODING_TABLE_def)

text \<open>
  C4. The claim: every result of the field operations is in the range 0 to 255, and
  \<open>power(x, n)\<close> is a field element for every base from 0 to 255. \<open>multiply\<close> and \<open>divide\<close>
  return early for a zero operand; \<open>power\<close> does not: for the base 0 it reads
  \<open>logTable[0] = -Infinity\<close>, the product with \<open>n\<close> is \<open>-Infinity\<close> or \<open>NaN\<close>, the remainder
  is \<open>NaN\<close>, and \<open>expTable[NaN]\<close> is \<open>undefined\<close>, for every exponent. (The other
  results are field elements: lemmas \<open>add_closed\<close>, \<open>subtract_closed\<close>,
  \<open>multiply_closed\<close>, \<open>divide_closed\<close>, and \<open>power_closed\<close> for a base from 1 to 255
  and an exponent for which the product is exact.)
\<close>

theorem power_zero: "power 0 n = Undefined \<and> \<not> isFieldElement (power 0 n)"
  unfolding power_def js_index_logTable_0
  by (cases "n = 0"; cases "0 < n"; simp)

text \<open>
  C5. The claim: \<open>appendBits(value, length)\<close> writes exactly the lowest \<open>length\<close> bits of
  \<open>value\<close> from the cursor on, also when \<open>length\<close> is smaller than the bit width of
  \<open>value\<close>. The doc comment calls \<open>length\<close> the number of bits to append, but the loop
  always writes all the bits of \<open>value\<close>: for a short \<open>length\<close> the padding
  \<open>length - realLength\<close> is negative, the bit cursor is moved back by it, and the high
  bits of \<open>value\<close> are or-ed onto bits written before. After \<open>appendBits(0, 1)\<close> on a
  fresh buffer, \<open>appendBits(0b10, 1)\<close> should add the bit 0 at position 1 and leave the
  byte \<open>00000000\<close>; it sets position 0, and the byte is \<open>10000000\<close>. After
  \<open>appendBits(0, 4)\<close>, \<open>appendBits(17, 4)\<close> should give \<open>00000001\<close>; the byte is
  \<open>00010001\<close>. (For a length that covers the value the claim holds where the write ends
  inside the storage, lemma \<open>appendBits_writes_lowest_bits\<close>, and the cursor advances by
  the length in every case, lemma \<open>appendBits_advances\<close>.)
\<close>

theorem appendBits_short_length_overwrites:
  "appendBits 0 (Some 1) (new_BitBuffer 1) = \<lparr>buffer = [0x00], bytePointer = 0, bitPointer = 1\<rparr>
   \<and> appendBits 2 (Some 1) (appendBits 0 (Some 1) (new_BitBuffer 1))
       = \<lparr>buffer = [0x80], bytePointer = 0, bitPointer = 2\<rparr>
   \<and> buffer (appendBits 2 (Some 1) (appendBits 0 (Some 1) (new_BitBuffer 1))) \<noteq> [0x00]
   \<and> appendBits 0 (Some 4) (new_BitBuffer 1) = \<lparr>buffer = [0x00], bytePointer = 0, bitPointer = 4\<rparr>
   \<and> appendBits 17 (Some 4) (appendBits 0 (Some 4) (new_BitBuffer 1))
       = \<lparr>buffer = [0x11], bytePointer = 1, bitPointer = 0\<rparr>
   \<and> buffer (appendBits 17 (Some 4) (appendBits 0 (Some 4) (new_BitBuffer 1))) \<noteq> [0x01]"
  by (simp add: bb_defs new_BitBuffer_def)

text \<open>
  C6. The claim: \<open>divide(a, b)\<close> fails with \<open>DivisionByZero\<close> whenever \<open>b\<close> is 0, for every
  numerator, 0 included. The function does throw 'Division by zero' for \<open>b = 0\<close>, but only
  after \<open>if (a === 0) return 0\<close>: the early return answers \<open>divide(0, 0)\<close> with 0. (The
  other cases of the claim hold: lemma \<open>divide_cases\<close>.)
\<close>

theorem divide_zero_by_zero:
  "divide 0 0 = Inr (Fin 0) \<and> divide 0 0 \<noteq> Inl DivisionByZero"
  by (simp add: divide_def)

text \<open>
  C7 (as stated). The claim: the count indicator width fails for every version outside
  1 to 40, versions below 1 included. The code compares with upper bounds only:
  version 0 gives 9.
\<close>

theorem getCharacterCountIndicatorSize_version_0:
  "getCharacterCountIndicatorSize 0 Alphanumeric = Inr 9
   \<and> getCharacterCountIndicatorSize 0 Alphanumeric \<noteq> Inl UnsupportedVersion"
  by (simp add: getCharacterCountIndicatorSize_def)

text \<open>
  C7 (amended). For alphanumeric mode the width is 9 for every version up to 9 (the
  versions below 1, which the type \<open>Version\<close> excludes, included), 11 for 10 to 26, 13 for
  27 to 40, and the call fails as unsupported for every version above 40; for every
  other mode it fails as unsupported, whatever the version.
\<close>

theorem getCharacterCountIndicatorSize_cases:
  "(version \<le> 9 \<longrightarrow> getCharacterCountIndicatorSize version Alphanumeric = Inr 9)
   \<and> (10 \<le> version \<and> version \<le> 26 \<longrightarrow>
        getCharacterCountIndicatorSize version Alphanumeric = Inr 11)
   \<and> (27 \<le> version \<and> version \<le> 40 \<longrightarrow>
        getCharacterCountIndicatorSize version Alphanumeric = Inr 13)
   \<and> (40 < version \<longrightarrow>
        getCharacterCountIndicatorSize version Alphanumeric = Inl UnsupportedVersion)
   \<and> (mode \<noteq> Alphanumeric \<longrightarrow>
        getCharacterCountIndicatorSize version mode = Inl UnsupportedMode)"
  by (cases mode) (simp_all add: getCharacterCountIndicatorSize_def)

theorem getCharacterCountIndicatorSize_cases_witness:
  "getCharacterCountIndicatorSize 1 Alphanumeric = Inr 9
   \<and> getCharacterCountIndicatorSize 9 Alphanumeric = Inr 9
   \<and> getCharacterCountIndicatorSize (- 3) Alphanumeric = Inr 9
   \<and> getCharacterCountIndicatorSize 10 Alphanumeric = Inr 11
   \<and> getCharacterCountIndicatorSize 26 Alphanumeric = Inr 11
   \<and> getCharacterCountIndicatorSize 27 Alphanumeric = Inr 13
   \<and> getCharacterCountIndicatorSize 40 Alphanumeric = Inr 13
   \<and> getCharacterCountIndicatorSize 41 Alphanumeric = Inl UnsupportedVersion
   \<and> getCharacterCountIndicatorSize 5 Byte = Inl UnsupportedMode"
  using getCharacterCountIndicatorSize_cases [of 1 Alphanumeric]
    getCharacterCountIndicatorSize_cases [of 9 Alphanumeric]
    getCharacterCountIndicatorSize_cases [of "- 3" Alphanumeric]
    getCharacterCountIndicatorSize_cases [of 10 Alphanumeric]
    getCharacterCountIndicatorSize_cases [of 26 Alphanumeric]
    getCharacterCountIndicatorSize_cases [of 27 Alphanumeric]
    getCharacterCountIndicatorSize_cases [of 40 Alphanumeric]
    getCharacterCountIndicatorSize_cases [of 41 Alphanumeric]
    getCharacterCountIndicatorSize_cases [of 5 Byte]
  by simp

text \<open>
  C8. \<open>fill()\<close> first aligns: when the bit cursor is not at 0 the byte being written is
  kept and the filling starts at the next byte, otherwise it starts at the byte cursor.
  The bytes before that are unchanged, and every byte from there to the end of the
  storage is overwritten with \<open>0xEC, 0x11, 0xEC, 0x11, \<dots>\<close>, the first of them \<open>0xEC\<close>. The
  storage keeps its length. Afterwards the bit cursor is at 0 (if it was positive) and
  the byte cursor is at the end of the storage (or beyond, where it already was), so a
  second \<open>fill()\<close> changes nothing.
\<close>

theorem fill_spec:
  "buffer (fill s) =
      take (if 0 < bitPointer s then bytePointer s + 1 else bytePointer s) (buffer s)
        @ map (\<lambda>k. if even k then 0xEC else 0x11)
            [0..<length (buffer s) - (if 0 < bitPointer s then bytePointer s + 1 else bytePointer s)]
   \<and> length (buffer (fill s)) = length (buffer s)
   \<and> bytePointer (fill s) =
        max (if 0 < bitPointer s then bytePointer s + 1 else bytePointer s) (length (buffer s))
   \<and> bitPointer (fill s) = (if 0 < bitPointer s then 0 else bitPointer s)
   \<and> fill (fill s) = fill s"
  by (rule fill_effect)

text \<open>On a four-byte storage with old content: from a partly written first byte, from
  the aligned cursor after it, and a second time.\<close>

theorem fill_spec_witness:
  "fill \<lparr>buffer = [0xA0, 0x55, 0x55, 0x55], bytePointer = 0, bitPointer = 3\<rparr>
     = \<lparr>buffer = [0xA0, 0xEC, 0x11, 0xEC], bytePointer = 4, bitPointer = 0\<rparr>
   \<and> fill \<lparr>buffer = [0xA0, 0x55, 0x55, 0x55], bytePointer = 1, bitPointer = 0\<rparr>
     = \<lparr>buffer = [0xA0, 0xEC, 0x11, 0xEC], bytePointer = 4, bitPointer = 0\<rparr>
   \<and> fill \<lparr>buffer = [0xA0, 0xEC, 0x11, 0xEC], bytePointer = 4, bitPointer = 0\<rparr>
     = \<lparr>buffer = [0xA0, 0xEC, 0x11, 0xEC], bytePointer = 4, bitPointer = 0\<rparr>"
proof -
  let ?s = "\<lparr>buffer = [0xA0, 0x55, 0x55, 0x55], bytePointer = 0, bitPointer = 3\<rparr>"
  let ?t = "\<lparr>buffer = [0xA0, 0x55, 0x55, 0x55], bytePointer = 1, bitPointer = 0\<rparr>"
  let ?r = "\<lparr>buffer = [0xA0, 0xEC, 0x11, 0xEC], bytePointer = 4, bitPointer = 0\<rparr>"
  have s: "fill ?s = ?r"
    using fill_spec [of ?s] by (intro BitBuffer.equality) (simp_all add: upt_conv_Cons)
  have t: "fill ?t = ?r"
    using fill_spec [of ?t] by (intro BitBuffer.equality) (simp_all add: upt_conv_Cons)
  have "fill (fill ?s) = fill ?s"
    using fill_spec [of ?s] by blast
  then have r: "fill ?r = ?r"
    unfolding s .
  from s t r show ?thesis
    by (intro conjI)
qed

text \<open>
  C9. For every field element \<open>a\<close> from 1 to 255, \<open>divide(1, a)\<close> returns a number \<open>q\<close> with
  \<open>multiply(a, q) = 1\<close>, both computed through the tables that the initializer builds
  from the polynomial \<open>0b100011101\<close>.
\<close>

theorem divide_one_is_inverse:
  assumes "1 \<le> a" "a \<le> 255"
  shows "\<exists>q. divide 1 a = Inr (Fin q) \<and> multiply a q = Fin 1"
proof -
  define m where "m = (255 - lg a) mod 255"
  have la: "0 \<le> lg a" "lg a < 255"
    using lg_range [OF assms] by simp_all
  have m: "0 \<le> m" "m < 255"
    by (simp_all add: m_def)
  have lg1: "lg 1 = 0"
    by (simp add: lg_def logValues_def)
  have ex0: "ex 0 = 1"
    by (simp add: ex_def expValues_def)
  have d: "divide 1 a = Inr (Fin (ex m))"
    using divide_nonzero(1) [of 1 a] assms by (simp add: lg1 m_def)
  have q: "1 \<le> ex m" "ex m \<le> 255" "lg (ex m) = m"
    using ex_range [OF m] by simp_all
  have "(lg a + m) mod 255 = 0"
  proof (cases "lg a = 0")
    case True
    then show ?thesis by (simp add: m_def)
  next
    case False
    with la have "m = 255 - lg a"
      unfolding m_def by (intro mod_pos_pos_trivial) auto
    then show ?thesis by simp
  qed
  then have "multiply a (ex m) = Fin 1"
    using multiply_nonzero [OF assms q(1,2)] by (simp add: q(3) ex0)
  with d show ?thesis by blast
qed

theorem divide_one_is_inverse_witness:
  "(1::int) \<le> 2 \<and> (2::int) \<le> 255
   \<and> (\<exists>q. divide 1 2 = Inr (Fin q) \<and> multiply 2 q = Fin 1)"
  using divide_one_is_inverse [of 2] by simp

text \<open>
  C10. \<open>encode(data, 'alphanumeric', qrType)\<close> does not look at \<open>qrType\<close>: for every input
  string, any two values of \<open>qrType\<close> give the same result. Where
  \<open>encodeAlphanumeric(data, 1, 'M')\<close> fails, \<open>encode\<close> fails in the same way; where it
  returns a stream, \<open>encode\<close> returns that stream filled to capacity: the bytes before
  its (aligned) byte cursor, then \<open>0xEC, 0x11, \<dots>\<close> to the end of the storage, which has
  the length of that stream and at least the 16 bytes of version 1, level M, with the
  byte cursor at the end and the bit cursor at 0. For every other mode the call fails
  with \<open>UnsupportedMode\<close>, whatever the input string.
\<close>

theorem encode_ignores_qrType:
  "encode data Alphanumeric qrType = encode data Alphanumeric qrType'
   \<and> (\<forall>e. encodeAlphanumeric data 1 M = Inl e \<longrightarrow> encode data Alphanumeric qrType = Inl e)
   \<and> (\<forall>b. encodeAlphanumeric data 1 M = Inr b \<longrightarrow>
        (\<exists>r. encode data Alphanumeric qrType = Inr r
           \<and> buffer r = take (bytePointer b) (buffer b)
                @ map (\<lambda>k. if even k then 0xEC else 0x11) [0..<length (buffer b) - bytePointer b]
           \<and> length (buffer r) = length (buffer b)
           \<and> 16 \<le> length (buffer r)
           \<and> length (buffer r) \<le> bytePointer r
           \<and> bitPointer r = 0))
   \<and> (mode \<noteq> Alphanumeric \<longrightarrow> encode data mode qrType = Inl UnsupportedMode)"
proof (intro conjI allI impI)
  show "encode data Alphanumeric qrType = encode data Alphanumeric qrType'"
    by (simp add: encode_def)
  show "encode data Alphanumeric qrType = Inl e" if "encodeAlphanumeric data 1 M = Inl e" for e
    using that by (simp add: encode_def)
  show "encode data mode qrType = Inl UnsupportedMode" if "mode \<noteq> Alphanumeric"
    using that by (cases mode) (simp_all add: encode_def)
  fix b
  assume b: "encodeAlphanumeric data 1 M = Inr b"
  note res = encodeAlphanumeric_result [OF b]
  have e: "encode data Alphanumeric qrType = Inr (fill b)"
    by (simp add: encode_def b)
  from fill_effect [of b] res
  have "buffer (fill b) = take (bytePointer b) (buffer b)
          @ map (\<lambda>k. if even k then 0xEC else 0x11) [0..<length (buffer b) - bytePointer b]"
      "length (buffer (fill b)) = length (buffer b)"
      "16 \<le> length (buffer (fill b))"
      "length (buffer (fill b)) \<le> bytePointer (fill b)"
      "bitPointer (fill b) = 0"
    by simp_all
  with e show "\<exists>r. encode data Alphanumeric qrType = Inr r
      \<and> buffer r = take (bytePointer b) (buffer b)
           @ map (\<lambda>k. if even k then 0xEC else 0x11) [0..<length (buffer b) - bytePointer b]
      \<and> length (buffer r) = length (buffer b)
      \<and> 16 \<le> length (buffer r)
      \<and> length (buffer r) \<le> bytePointer r
      \<and> bitPointer r = 0"
    by blast
qed

text \<open>With \<open>qrType\<close> 40-H, for which \<open>encodeAlphanumeric\<close> itself fails, the result is that
  of 1-M, filled.\<close>

theorem encode_ignores_qrType_witness:
  "encode ''AC-42'' Alphanumeric (1, M) = encode ''AC-42'' Alphanumeric (40, H)
   \<and> map_sum id buffer (encode ''AC-42'' Alphanumeric (40, H)) =
       Inr [0x20, 0x29, 0xCE, 0xE7, 0x21, 0x00,
            0xEC, 0x11, 0xEC, 0x11, 0xEC, 0x11, 0xEC, 0x11, 0xEC, 0x11]
   \<and> encodeAlphanumeric ''AC-42'' 40 H = Inl UnsupportedVersion
   \<and> encode ''0'' Alphanumeric (1, M) = Inl (InvalidCharacter CHR ''0'')
   \<and> encode ''AC-42'' Kanji (1, M) = Inl UnsupportedMode"
proof -
  note t = encode_ignores_qrType [of "''AC-42''" "(40, H)" "(1, M)" Kanji]
  let ?b = "\<lparr>buffer = [32, 41, 206, 231, 33, 0, 0, 0, 0, 0, 0, 0, 0, 0, 0, 0],
             bytePointer = 6, bitPointer = 0\<rparr>"
  from t have same: "encode ''AC-42'' Alphanumeric (1, M) = encode ''AC-42'' Alphanumeric (40, H)"
    by simp
  from t encodeAlphanumeric_AC_42 obtain r
    where r: "encode ''AC-42'' Alphanumeric (40, H) = Inr r"
      "buffer r = take (bytePointer ?b) (buffer ?b)
         @ map (\<lambda>k. if even k then 0xEC else 0x11) [0..<length (buffer ?b) - bytePointer ?b]"
    by blast
  have filled: "map_sum id buffer (encode ''AC-42'' Alphanumeric (40, H)) =
       Inr [0x20, 0x29, 0xCE, 0xE7, 0x21, 0x00,
            0xEC, 0x11, 0xEC, 0x11, 0xEC, 0x11, 0xEC, 0x11, 0xEC, 0x11]"
    by (simp add: r upt_conv_Cons)
  have version: "encodeAlphanumeric ''AC-42'' 40 H = Inl UnsupportedVersion"
    by (simp add: encodeAlphanumeric_def)
  have "encodeAlphanumeric ''0'' 1 M = Inl (InvalidCharacter CHR ''0'')"
    by (simp add: encodeAlphanumeric_def getCharacterCountIndicatorSize_def falsy_def
        ALPHANUMERIC_ENCODING_TABLE_def)
  with encode_ignores_qrType [of "''0''" "(1, M)" "(1, M)" Kanji]
  have zero: "encode ''0'' Alphanumeric (1, M) = Inl (InvalidCharacter CHR ''0'')"
    by blast
  from encode_ignores_qrType [of "''AC-42''" "(1, M)" "(1, M)" Kanji]
  have mode: "encode ''AC-42'' Kanji (1, M) = Inl UnsupportedMode"
    by simp
  from same filled version zero mode show ?thesis
    by (intro conjI)
qed

end
